theory Spec2Isabelle
  imports Main "HOL-Library.Sublist"
begin

section \<open>Strings of the script\<close>

text \<open>
  The script \<^verbatim>\<open>docs/generate-pdf.py\<close> works on Python \<^verbatim>\<open>str\<close> values. A text is
  modelled as a \<^typ>\<open>string\<close>, one \<^typ>\<open>char\<close> per code point; the model
  covers the code points below 256, and the character classes below list what Python's
  \<^verbatim>\<open>\s\<close>, \<^verbatim>\<open>\d\<close>, \<^verbatim>\<open>\w\<close> and \<^verbatim>\<open>str.strip\<close> accept in that range.
\<close>

definition is_space :: "char \<Rightarrow> bool" where
  "is_space c =
     (let n = (of_char c :: nat)
      in (9 \<le> n \<and> n \<le> 13) \<or> (28 \<le> n \<and> n \<le> 32) \<or> n = 133 \<or> n = 160)"

definition is_digit :: "char \<Rightarrow> bool" where
  "is_digit c = (let n = (of_char c :: nat) in 48 \<le> n \<and> n \<le> 57)"

definition is_word :: "char \<Rightarrow> bool" where
  "is_word c =
     (let n = (of_char c :: nat)
      in (48 \<le> n \<and> n \<le> 57) \<or> (65 \<le> n \<and> n \<le> 90) \<or> n = 95 \<or> (97 \<le> n \<and> n \<le> 122)
         \<or> n = 170 \<or> n = 178 \<or> n = 179 \<or> n = 181 \<or> n = 185 \<or> n = 186
         \<or> (188 \<le> n \<and> n \<le> 190) \<or> (192 \<le> n \<and> n \<le> 214)
         \<or> (216 \<le> n \<and> n \<le> 246) \<or> 248 \<le> n)"

definition dot :: "char \<Rightarrow> bool" where
  \<comment> \<open>\<^verbatim>\<open>.\<close> without DOTALL: anything but a newline\<close>
  "dot c = (c \<noteq> CHR 0x0A)"

definition any_char :: "char \<Rightarrow> bool" where
  \<comment> \<open>\<^verbatim>\<open>[\s\S]\<close>\<close>
  "any_char c = True"

definition not_chr :: "char \<Rightarrow> char \<Rightarrow> bool" where
  \<comment> \<open>\<^verbatim>\<open>[^d]\<close>\<close>
  "not_chr d c = (c \<noteq> d)"

definition one_of :: "string \<Rightarrow> char \<Rightarrow> bool" where
  \<comment> \<open>\<^verbatim>\<open>[abc]\<close>\<close>
  "one_of cs c = (c \<in> set cs)"

fun startswith :: "'a list \<Rightarrow> 'a list \<Rightarrow> bool" where
  \<comment> \<open>\<^verbatim>\<open>s.startswith(pre)\<close>, written \<open>startswith pre s\<close>\<close>
  "startswith [] s = True"
| "startswith (a # pre) [] = False"
| "startswith (a # pre) (c # s) = (a = c \<and> startswith pre s)"

fun contains :: "'a list \<Rightarrow> 'a list \<Rightarrow> bool" where
  \<comment> \<open>\<^verbatim>\<open>sub in s\<close>, written \<open>contains sub s\<close>\<close>
  "contains sub [] = (sub = [])"
| "contains sub (c # s) = (startswith sub (c # s) \<or> contains sub s)"

definition strip :: "string \<Rightarrow> string" where
  \<comment> \<open>\<^verbatim>\<open>s.strip()\<close>\<close>
  "strip s = rev (dropWhile is_space (rev (dropWhile is_space s)))"

function split :: "'a list \<Rightarrow> 'a list \<Rightarrow> 'a list list" where
  \<comment> \<open>\<^verbatim>\<open>s.split(sep)\<close> for a non-empty separator (Python raises ValueError on an
      empty one; every separator of the script is a non-empty literal)\<close>
  "split sep s =
     (if sep \<noteq> [] \<and> startswith sep s then [] # split sep (drop (length sep) s)
      else (case s of
              [] \<Rightarrow> [[]]
            | c # cs \<Rightarrow> (case split sep cs of [] \<Rightarrow> [[c]] | w # ws \<Rightarrow> (c # w) # ws)))"
  by pat_completeness auto
termination
proof (relation "measure (\<lambda>(sep, s). length s)", goal_cases)
  case (2 sep s)
  then show ?case by (cases s; cases sep) auto
qed auto

fun join :: "'a list \<Rightarrow> 'a list list \<Rightarrow> 'a list" where
  \<comment> \<open>\<^verbatim>\<open>sep.join(xs)\<close>\<close>
  "join sep [] = []"
| "join sep [x] = x"
| "join sep (x # y # ys) = x @ sep @ join sep (y # ys)"

function replace :: "'a list \<Rightarrow> 'a list \<Rightarrow> 'a list \<Rightarrow> 'a list" where
  \<comment> \<open>\<^verbatim>\<open>s.replace(old, new)\<close>: left to right, occurrences do not overlap\<close>
  "replace old new s =
     (if old = [] then new @ concat (map (\<lambda>c. c # new) s)
      else if startswith old s then new @ replace old new (drop (length old) s)
      else (case s of [] \<Rightarrow> [] | c # cs \<Rightarrow> c # replace old new cs))"
  by pat_completeness auto
termination
proof (relation "measure (\<lambda>(old, new, s). length s)", goal_cases)
  case (2 old new s)
  then show ?case by (cases s; cases old) auto
qed auto

declare split.simps [simp del] replace.simps [simp del]

definition digit_chr :: "nat \<Rightarrow> char" where
  "digit_chr d = char_of (48 + d)"

function str_nat :: "nat \<Rightarrow> string" where
  \<comment> \<open>the decimal text an f-string gives a non-negative \<^verbatim>\<open>int\<close>\<close>
  "str_nat n = (if n < 10 then [digit_chr n] else str_nat (n div 10) @ [digit_chr (n mod 10)])"
  by pat_completeness auto
termination
  by (relation "measure id") auto

declare str_nat.simps [simp del]

section \<open>Regular expressions as Python's \<^verbatim>\<open>re\<close> runs them\<close>

datatype error = IndexError | ReError

type_synonym groups = "(nat \<times> string) list"

text \<open>
  A matcher state: the character before the current position (\<open>None\<close> at the start of
  the text), the text from the current position on, and the groups captured so far (the
  newest first, so a repeated group reads its last iteration).
\<close>

type_synonym mstate = "char option \<times> string \<times> groups"

datatype re =
    Chr char
  | Cls "char \<Rightarrow> bool"
  | Bol
  | Bos
  | Eol
  | Eps
  | Seq re re
  | Alt re re
  | Star re
  | Lazy re
  | Grp nat re

text \<open>
  \<open>rmatch r st\<close> lists every way in which \<open>r\<close> matches at \<open>st\<close>, in the order in
  which the backtracking matcher tries them: a greedy star tries one more iteration
  before it stops, a lazy star stops before it tries one more, an alternation tries the
  left branch first. The match \<^verbatim>\<open>re\<close> reports is the head of the list.
  \<open>Bol\<close> and \<open>Eol\<close> are \<^verbatim>\<open>^\<close> and \<^verbatim>\<open>$\<close> under \<^verbatim>\<open>re.MULTILINE\<close>; \<open>Bos\<close> is
  \<^verbatim>\<open>^\<close> without the flag.
\<close>

function (sequential) rmatch :: "re \<Rightarrow> mstate \<Rightarrow> mstate list" where
  "rmatch (Chr c) (p, [], g) = []"
| "rmatch (Chr c) (p, x # xs, g) = (if x = c then [(Some x, xs, g)] else [])"
| "rmatch (Cls P) (p, [], g) = []"
| "rmatch (Cls P) (p, x # xs, g) = (if P x then [(Some x, xs, g)] else [])"
| "rmatch Bol (p, s, g) = (if p = None \<or> p = Some CHR 0x0A then [(p, s, g)] else [])"
| "rmatch Bos (p, s, g) = (if p = None then [(p, s, g)] else [])"
| "rmatch Eol (p, s, g) =
     (case s of [] \<Rightarrow> [(p, s, g)] | x # xs \<Rightarrow> if x = CHR 0x0A then [(p, s, g)] else [])"
| "rmatch Eps st = [st]"
| "rmatch (Seq r1 r2) st = concat (map (rmatch r2) (rmatch r1 st))"
| "rmatch (Alt r1 r2) st = rmatch r1 st @ rmatch r2 st"
| "rmatch (Star r) (p, s, g) =
     concat (map (\<lambda>(p', s', g'). if length s' < length s then rmatch (Star r) (p', s', g') else [])
                 (rmatch r (p, s, g)))
     @ [(p, s, g)]"
| "rmatch (Lazy r) (p, s, g) =
     (p, s, g)
     # concat (map (\<lambda>(p', s', g'). if length s' < length s then rmatch (Lazy r) (p', s', g') else [])
                   (rmatch r (p, s, g)))"
| "rmatch (Grp n r) (p, s, g) =
     map (\<lambda>(p', s', g'). (p', s', (n, take (length s - length s') s) # g')) (rmatch r (p, s, g))"
  by pat_completeness auto
termination
  by (relation "inv_image (less_than <*lex*> less_than) (\<lambda>(r, (p, s, g)). (size r, length s))")
     auto

declare rmatch.simps(11,12) [simp del]

definition Plus :: "re \<Rightarrow> re" where
  "Plus r = Seq r (Star r)"

definition Opt :: "re \<Rightarrow> re" where
  "Opt r = Alt r Eps"

definition Str :: "string \<Rightarrow> re" where
  "Str s = foldr (\<lambda>c r. Seq (Chr c) r) s Eps"

definition Seqs :: "re list \<Rightarrow> re" where
  "Seqs rs = foldr Seq rs Eps"

definition Alts :: "re list \<Rightarrow> re" where
  "Alts rs = foldr Alt (butlast rs) (last rs)"

text \<open>
  \<open>scan r adv p s\<close> is the iteration behind \<^verbatim>\<open>re.sub\<close>: the leftmost match from the
  current position, then the next one from where it ended. A character that no match
  covers is kept (\<open>C\<close>); a match is handed on with group 0 (the matched text) and its
  groups (\<open>M\<close>). After an empty match the next attempt at the same position must
  consume something (\<open>adv\<close>), as Python 3.7 and later do.
\<close>

datatype piece = C char | M groups

function scan :: "re \<Rightarrow> bool \<Rightarrow> char option \<Rightarrow> string \<Rightarrow> piece list" where
  "scan r adv p s =
     (case filter (\<lambda>(p', s', g'). if adv then length s' < length s else True) (rmatch r (p, s, [])) of
        (p', s', g') # _ \<Rightarrow>
          if length s' < length s
          then M ((0, take (length s - length s') s) # g') # scan r False p' s'
          else M ((0, []) # g') # (if adv then [] else scan r True p s)
      | [] \<Rightarrow> (case s of [] \<Rightarrow> [] | c # cs \<Rightarrow> C c # scan r False (Some c) cs))"
  by pat_completeness auto
termination
  by (relation "inv_image (less_than <*lex*> less_than)
                  (\<lambda>(r, adv, p, s). (length s, if adv then 0 else (1::nat)))") auto

declare scan.simps [simp del]

definition group :: "groups \<Rightarrow> nat \<Rightarrow> error + string" where
  \<comment> \<open>\<^verbatim>\<open>match.group(n)\<close>\<close>
  "group m n = (case map_of m n of None \<Rightarrow> Inl IndexError | Some v \<Rightarrow> Inr v)"

datatype titem = T string | G nat

fun expand :: "titem list \<Rightarrow> groups \<Rightarrow> error + string" where
  \<comment> \<open>a replacement template such as \<^verbatim>\<open>r'<h1>\1</h1>'\<close>\<close>
  "expand [] m = Inr []"
| "expand (T s # ts) m = (case expand ts m of Inl e \<Rightarrow> Inl e | Inr out \<Rightarrow> Inr (s @ out))"
| "expand (G n # ts) m =
     (case map_of m n of
        None \<Rightarrow> Inl ReError
      | Some v \<Rightarrow> (case expand ts m of Inl e \<Rightarrow> Inl e | Inr out \<Rightarrow> Inr (v @ out)))"

fun subst :: "(groups \<Rightarrow> error + string) \<Rightarrow> piece list \<Rightarrow> error + string" where
  "subst f [] = Inr []"
| "subst f (C c # ps) = (case subst f ps of Inl e \<Rightarrow> Inl e | Inr out \<Rightarrow> Inr (c # out))"
| "subst f (M m # ps) =
     (case f m of
        Inl e \<Rightarrow> Inl e
      | Inr r \<Rightarrow> (case subst f ps of Inl e \<Rightarrow> Inl e | Inr out \<Rightarrow> Inr (r @ out)))"

definition re_sub :: "re \<Rightarrow> (groups \<Rightarrow> error + string) \<Rightarrow> string \<Rightarrow> error + string" where
  \<comment> \<open>\<^verbatim>\<open>re.sub(pattern, repl, text)\<close>\<close>
  "re_sub r f s = subst f (scan r False None s)"

fun and_then :: "error + 'a \<Rightarrow> ('a \<Rightarrow> error + 'b) \<Rightarrow> error + 'b" where
  "and_then (Inl e) f = Inl e"
| "and_then (Inr x) f = f x"

section \<open>The diagram-block replacer\<close>

definition mermaid_re :: re where
  \<comment> \<open>\<^verbatim>\<open>r'```mermaid\n[\s\S]*?```'\<close>\<close>
  "mermaid_re = Seqs [Str ''```mermaid\<newline>'', Lazy (Cls any_char), Str ''```'']"

definition figure :: "nat \<Rightarrow> string" where
  \<open>figure n =
     ''<figure>\<newline><img src="diagrams/diagram'' @ str_nat n @ ''.png" alt="Diagram '' @ str_nat n
     @ ''">\<newline><figcaption>Figure '' @ str_nat n @ ''</figcaption>\<newline></figure>''\<close>

definition replace_mermaid :: "nat \<Rightarrow> groups \<Rightarrow> string \<times> nat" where
  \<comment> \<open>the callback: the global \<^verbatim>\<open>diagram_count\<close> goes in and comes out\<close>
  "replace_mermaid diagram_count m = (figure (diagram_count + 1), diagram_count + 1)"

fun subst_count :: "nat \<Rightarrow> piece list \<Rightarrow> string \<times> nat" where
  "subst_count n [] = ([], n)"
| "subst_count n (C c # ps) = (let (out, n') = subst_count n ps in (c # out, n'))"
| "subst_count n (M m # ps) =
     (let (r, n1) = replace_mermaid n m; (out, n') = subst_count n1 ps in (r @ out, n'))"

definition replace_mermaid_blocks :: "nat \<Rightarrow> string \<Rightarrow> string \<times> nat" where
  \<comment> \<open>line 23: \<^verbatim>\<open>re.sub(r'```mermaid\n[\s\S]*?```', replace_mermaid, md_content)\<close>\<close>
  "replace_mermaid_blocks diagram_count md_content =
     subst_count diagram_count (scan mermaid_re False None md_content)"

section \<open>The markdown to HTML converter\<close>

definition heading_re :: "string \<Rightarrow> re" where
  \<comment> \<open>\<^verbatim>\<open>r'^# (.+)$'\<close>, \<^verbatim>\<open>r'^## (.+)$'\<close>, \<^verbatim>\<open>r'^### (.+)$'\<close> with MULTILINE\<close>
  "heading_re marker = Seqs [Bol, Str marker, Grp 1 (Plus (Cls dot)), Eol]"

definition meta_block :: string where
  \<open>meta_block =
     ''</h1>\<newline><div class="meta">January 2026</div>\<newline><div class="abstract">\<newline><div class="abstract-title">Abstract</div>\<newline>This document examines how the wrapper around a language model affects clinical documentation output. We processed the same psychiatric case through ChatGPT and through Psych Intake Brief. Both use GPT-5.2. The difference is in how the interaction gets structured.\<newline></div>\<newline>''\<close>

definition hr_re :: re where
  \<comment> \<open>\<^verbatim>\<open>r'^---+$'\<close> with MULTILINE\<close>
  "hr_re = Seqs [Bol, Str ''--'', Plus (Chr CHR ''-''), Eol]"

definition code_block_re :: re where
  \<comment> \<open>\<^verbatim>\<open>r'```\w*\n([\s\S]*?)```'\<close>\<close>
  "code_block_re =
     Seqs [Str ''```'', Star (Cls is_word), Chr CHR 0x0A, Grp 1 (Lazy (Cls any_char)), Str ''```'']"

definition escape_angle :: "string \<Rightarrow> string" where
  \<comment> \<open>\<^verbatim>\<open>code.replace('<', '&lt;').replace('>', '&gt;')\<close>\<close>
  "escape_angle code = replace ''>'' ''&gt;'' (replace ''<'' ''&lt;'' code)"

definition format_code_block :: "groups \<Rightarrow> error + string" where
  "format_code_block m =
     and_then (group m 1) (\<lambda>code. Inr (''<pre><code>'' @ escape_angle code @ ''</code></pre>''))"

definition inline_code_re :: re where
  \<comment> \<open>\<^verbatim>\<open>r'`([^`]+)`'\<close>\<close>
  "inline_code_re = Seqs [Chr CHR ''`'', Grp 1 (Plus (Cls (not_chr CHR ''`''))), Chr CHR ''`'']"

definition bold_re :: re where
  \<comment> \<open>\<^verbatim>\<open>r'\*\*([^*]+)\*\*'\<close>\<close>
  "bold_re = Seqs [Str ''**'', Grp 1 (Plus (Cls (not_chr CHR ''*''))), Str ''**'']"

definition italic_re :: re where
  \<comment> \<open>\<^verbatim>\<open>r'\*([^*]+)\*'\<close>\<close>
  "italic_re = Seqs [Chr CHR ''*'', Grp 1 (Plus (Cls (not_chr CHR ''*''))), Chr CHR ''*'']"

definition image_re :: re where
  \<comment> \<open>\<^verbatim>\<open>r'!\[([^\]]*)\]\(([^)]+)\)'\<close>\<close>
  "image_re =
     Seqs [Str ''!['', Grp 1 (Star (Cls (not_chr CHR '']''))), Str ''](''  ,
           Grp 2 (Plus (Cls (not_chr CHR '')''))), Chr CHR '')'']"

definition image_template :: "titem list" where
  \<open>image_template =
     [T ''<figure><img src="'', G 2, T ''" alt="'', G 1, T ''"><figcaption>'', G 1,
      T ''</figcaption></figure>'']\<close>

definition table_re :: re where
  \<comment> \<open>\<^verbatim>\<open>r'(\|.+\|[\n])+'\<close>\<close>
  "table_re = Plus (Grp 1 (Seqs [Chr CHR ''|'', Plus (Cls dot), Chr CHR ''|'', Chr CHR 0x0A]))"

definition table_row :: "string \<Rightarrow> string \<Rightarrow> string" where
  \<comment> \<open>lines 72 and 74: the cells of a line and the row made of them\<close>
  "table_row tag line =
     (let cells = map strip (butlast (tl (split ''|'' line)))
      in ''<tr>'' @ concat (map (\<lambda>c. ''<'' @ tag @ ''>'' @ c @ ''</'' @ tag @ ''>'') cells)
         @ ''</tr>\<newline>'')"

fun table_rows :: "nat \<Rightarrow> string list \<Rightarrow> string" where
  \<comment> \<open>the loop \<^verbatim>\<open>for i, line in enumerate(lines)\<close> of \<^verbatim>\<open>format_table\<close>\<close>
  "table_rows i [] = []"
| "table_rows i (line # lines) =
     (if contains ''---'' line then table_rows (i + 1) lines
      else table_row (if i = 0 then ''th'' else ''td'') line @ table_rows (i + 1) lines)"

definition format_table :: "groups \<Rightarrow> error + string" where
  "format_table m =
     and_then (group m 0) (\<lambda>whole.
       Inr (''<table>\<newline>'' @ table_rows 0 (split ''\<newline>'' (strip whole)) @ ''</table>''))"

definition list_re :: re where
  \<comment> \<open>\<^verbatim>\<open>r'(^[\s]*[-*]\s+.+[\n]?)+'\<close> with MULTILINE\<close>
  "list_re =
     Plus (Grp 1 (Seqs [Bol, Star (Cls is_space), Cls (one_of ''-*''), Plus (Cls is_space),
                        Plus (Cls dot), Opt (Chr CHR 0x0A)]))"

definition list_marker_re :: re where
  \<comment> \<open>\<^verbatim>\<open>r'^[\s]*[-*]\s*'\<close>\<close>
  "list_marker_re = Seqs [Bos, Star (Cls is_space), Cls (one_of ''-*''), Star (Cls is_space)]"

definition ol_re :: re where
  \<comment> \<open>\<^verbatim>\<open>r'(^[\s]*\d+\.\s+.+[\n]?)+'\<close> with MULTILINE\<close>
  "ol_re =
     Plus (Grp 1 (Seqs [Bol, Star (Cls is_space), Plus (Cls is_digit), Chr CHR ''.'',
                        Plus (Cls is_space), Plus (Cls dot), Opt (Chr CHR 0x0A)]))"

definition ol_marker_re :: re where
  \<comment> \<open>\<^verbatim>\<open>r'^[\s]*\d+\.\s*'\<close>\<close>
  "ol_marker_re =
     Seqs [Bos, Star (Cls is_space), Plus (Cls is_digit), Chr CHR ''.'', Star (Cls is_space)]"

fun list_items :: "re \<Rightarrow> string list \<Rightarrow> error + string" where
  \<comment> \<open>the loop \<^verbatim>\<open>for item in items\<close> of \<^verbatim>\<open>format_list\<close> and \<^verbatim>\<open>format_ol\<close>\<close>
  "list_items marker [] = Inr []"
| "list_items marker (item # items) =
     and_then (re_sub marker (expand []) item) (\<lambda>item'.
       and_then (list_items marker items) (\<lambda>html.
         Inr (''<li>'' @ item' @ ''</li>\<newline>'' @ html)))"

definition format_list :: "groups \<Rightarrow> error + string" where
  "format_list m =
     and_then (group m 0) (\<lambda>whole.
       and_then (list_items list_marker_re (split ''\<newline>'' (strip whole))) (\<lambda>html.
         Inr (''<ul>\<newline>'' @ html @ ''</ul>'')))"

definition format_ol :: "groups \<Rightarrow> error + string" where
  "format_ol m =
     and_then (group m 0) (\<lambda>whole.
       and_then (list_items ol_marker_re (split ''\<newline>'' (strip whole))) (\<lambda>html.
         Inr (''<ol>\<newline>'' @ html @ ''</ol>'')))"

definition wrap_paragraph :: "string \<Rightarrow> string" where
  \<comment> \<open>the body of the loop over \<^verbatim>\<open>paragraphs\<close>\<close>
  "wrap_paragraph p =
     (let q = strip p in if q \<noteq> [] \<and> \<not> startswith ''<'' q then ''<p>'' @ q @ ''</p>'' else p)"

definition paragraph_pass :: "string \<Rightarrow> string" where
  "paragraph_pass text = join ''\<newline>\<newline>'' (map wrap_paragraph (split ''\<newline>\<newline>'' text))"

definition empty_p_re :: re where
  \<comment> \<open>\<^verbatim>\<open>r'<p>\s*</p>'\<close>\<close>
  "empty_p_re = Seqs [Str ''<p>'', Star (Cls is_space), Str ''</p>'']"

definition p_before_block_re :: re where
  \<comment> \<open>\<^verbatim>\<open>r'<p>\s*(<h\d|<hr|<figure|<table|<ul|<ol|<pre)'\<close>\<close>
  "p_before_block_re =
     Seqs [Str ''<p>'', Star (Cls is_space),
           Grp 1 (Alts [Seq (Str ''<h'') (Cls is_digit), Str ''<hr'', Str ''<figure'', Str ''<table'',
                        Str ''<ul'', Str ''<ol'', Str ''<pre''])]"

definition p_after_block_re :: re where
  \<comment> \<open>\<^verbatim>\<open>r'(</h\d>|</table>|</ul>|</ol>|</pre>|</figure>)\s*</p>'\<close>\<close>
  "p_after_block_re =
     Seqs [Grp 1 (Alts [Seqs [Str ''</h'', Cls is_digit, Chr CHR ''>''], Str ''</table>'',
                        Str ''</ul>'', Str ''</ol>'', Str ''</pre>'', Str ''</figure>'']),
           Star (Cls is_space), Str ''</p>'']"

definition title_pass :: "string \<Rightarrow> error + string" where
  \<comment> \<open>line 28\<close>
  "title_pass = re_sub (heading_re ''# '') (expand [T ''<h1>'', G 1, T ''</h1>''])"

definition meta_pass :: "string \<Rightarrow> error + string" where
  \<comment> \<open>lines 31 to 37\<close>
  "meta_pass text = Inr (replace ''</h1>\<newline>\<newline>'' meta_block text)"

definition h2_pass :: "string \<Rightarrow> error + string" where
  \<comment> \<open>line 40\<close>
  "h2_pass = re_sub (heading_re ''## '') (expand [T ''<h2>'', G 1, T ''</h2>''])"

definition h3_pass :: "string \<Rightarrow> error + string" where
  \<comment> \<open>line 41\<close>
  "h3_pass = re_sub (heading_re ''### '') (expand [T ''<h3>'', G 1, T ''</h3>''])"

definition hr_pass :: "string \<Rightarrow> error + string" where
  \<comment> \<open>line 44\<close>
  "hr_pass = re_sub hr_re (expand [T ''<hr>''])"

definition code_block_pass :: "string \<Rightarrow> error + string" where
  \<comment> \<open>line 51\<close>
  "code_block_pass = re_sub code_block_re format_code_block"

definition inline_code_pass :: "string \<Rightarrow> error + string" where
  \<comment> \<open>line 54\<close>
  "inline_code_pass = re_sub inline_code_re (expand [T ''<code>'', G 1, T ''</code>''])"

definition bold_pass :: "string \<Rightarrow> error + string" where
  \<comment> \<open>line 57\<close>
  "bold_pass = re_sub bold_re (expand [T ''<strong>'', G 1, T ''</strong>''])"

definition italic_pass :: "string \<Rightarrow> error + string" where
  \<comment> \<open>line 60\<close>
  "italic_pass = re_sub italic_re (expand [T ''<em>'', G 1, T ''</em>''])"

definition image_pass :: "string \<Rightarrow> error + string" where
  \<comment> \<open>line 63\<close>
  "image_pass = re_sub image_re (expand image_template)"

definition table_pass :: "string \<Rightarrow> error + string" where
  \<comment> \<open>line 78\<close>
  "table_pass = re_sub table_re format_table"

definition list_pass :: "string \<Rightarrow> error + string" where
  \<comment> \<open>line 89\<close>
  "list_pass = re_sub list_re format_list"

definition ol_pass :: "string \<Rightarrow> error + string" where
  \<comment> \<open>line 100\<close>
  "ol_pass = re_sub ol_re format_ol"

definition cleanup_pass :: "string \<Rightarrow> error + string" where
  \<comment> \<open>lines 111 to 114\<close>
  "cleanup_pass text =
     and_then (re_sub empty_p_re (expand []) (replace ''\<newline></p>'' ''</p>'' text)) (\<lambda>text.
       and_then (re_sub p_before_block_re (expand [G 1]) text)
         (re_sub p_after_block_re (expand [G 1])))"

definition passes :: "(string \<Rightarrow> error + string) list" where
  \<comment> \<open>the statements of \<^verbatim>\<open>md_to_html\<close>, lines 28 to 114, in their order\<close>
  "passes =
    [title_pass, meta_pass, h2_pass, h3_pass, hr_pass, code_block_pass, inline_code_pass,
     bold_pass, italic_pass, image_pass, table_pass, list_pass, ol_pass,
     \<lambda>text. Inr (paragraph_pass text), cleanup_pass]"

definition md_to_html :: "string \<Rightarrow> error + string" where
  "md_to_html text = foldl and_then (Inr text) passes"

definition output_contains :: "string \<Rightarrow> error + string \<Rightarrow> bool" where
  \<comment> \<open>the conversion returned a text, and \<open>sub\<close> occurs in it\<close>
  "output_contains sub res = (case res of Inl e \<Rightarrow> False | Inr out \<Rightarrow> contains sub out)"

section \<open>The script around the converter\<close>

text \<open>
  Lines 9 to 23 and 118 to 161. The file system and the PDF library are outside the
  script: what the script does to them is recorded as a list of events, and what they do
  to the script is an argument. \<open>render\<close> is what the statements of the \<^verbatim>\<open>try\<close> block up to
  \<^verbatim>\<open>write_pdf\<close> do (\<open>None\<close>: they return; \<open>Some e\<close>: one of them raises \<open>e\<close>), and
  \<open>getsize\<close> is what \<^verbatim>\<open>os.path.getsize\<close> does. A raised exception is an instance of
  \<^verbatim>\<open>Exception\<close>, which \<^verbatim>\<open>except Exception\<close> catches, or of another subclass of
  \<^verbatim>\<open>BaseException\<close> (\<^verbatim>\<open>KeyboardInterrupt\<close>, \<^verbatim>\<open>SystemExit\<close>, \<^verbatim>\<open>GeneratorExit\<close>), which
  it lets through.
\<close>

datatype raised = Exception_instance string | Other_BaseException string

datatype event = Write_file string string | Write_pdf string | Print string

datatype exit = Exit_code nat | Uncaught raised

definition html_doc :: "string \<Rightarrow> string" where
  \<open>html_doc html_content =
     ''<!DOCTYPE html>\<newline><html lang="en">\<newline><head>\<newline>    <meta charset="UTF-8">\<newline>    <title>Structured Harnesses for Clinical AI</title>\<newline>    <link rel="stylesheet" href="academic-style.css">\<newline></head>\<newline><body>\<newline>''
     @ html_content @ ''\<newline></body>\<newline></html>''\<close>

definition fmt_kb :: "nat \<Rightarrow> string" where
  \<comment> \<open>\<^verbatim>\<open>f"{size / 1024:.0f}"\<close>: the quotient rounded half to even (the division by 1024 is
      exact for a size below \<open>2 ^ 53\<close>)\<close>
  "fmt_kb nbytes =
     (let q = nbytes div 1024; r = nbytes mod 1024
      in str_nat (if 512 < r \<or> (r = 512 \<and> odd q) then q + 1 else q))"

definition error_text :: "error \<Rightarrow> string" where
  "error_text e = (case e of IndexError \<Rightarrow> ''no such group'' | ReError \<Rightarrow> ''invalid group reference'')"

definition handler :: "raised \<Rightarrow> event list \<Rightarrow> event list \<times> exit" where
  \<comment> \<open>\<^verbatim>\<open>except Exception as e: print(f"PDF generation error: {e}")\<close>\<close>
  "handler e events =
     (case e of
        Exception_instance msg \<Rightarrow> (events @ [Print (''PDF generation error: '' @ msg)], Exit_code 0)
      | Other_BaseException msg \<Rightarrow> (events, Uncaught e))"

definition main :: "string \<Rightarrow> raised option \<Rightarrow> raised + nat \<Rightarrow> event list \<times> exit" where
  "main md_file render getsize =
     (let (md_content, diagram_count) = replace_mermaid_blocks 0 md_file
      in case md_to_html md_content of
           Inl e \<Rightarrow> ([], Uncaught (Exception_instance (error_text e)))
         | Inr html_content \<Rightarrow>
             (let events = [Write_file ''academic-output.html'' (html_doc html_content),
                            Print ''HTML generated: academic-output.html'']
              in case render of
                   Some e \<Rightarrow> handler e events
                 | None \<Rightarrow>
                     (let events' = events
                            @ [Write_pdf ''Psych_Intake_Brief_Technical_Documentation.pdf'',
                               Print ''PDF generated: Psych_Intake_Brief_Technical_Documentation.pdf'']
                      in case getsize of
                           Inl e \<Rightarrow> handler e events'
                         | Inr nbytes \<Rightarrow>
                             (events' @ [Print (''Size: '' @ fmt_kb nbytes @ '' KB'')], Exit_code 0))))"

section \<open>Captured groups\<close>

text \<open>
  The groups that every match of a pattern has set: the only way a replacement can raise
  is a reference to a group that the match has not.
\<close>

fun captured :: "re \<Rightarrow> nat set" where
  "captured (Grp n r) = insert n (captured r)"
| "captured (Seq r1 r2) = captured r1 \<union> captured r2"
| "captured (Alt r1 r2) = captured r1 \<inter> captured r2"
| "captured r = {}"

definition has :: "mstate \<Rightarrow> nat \<Rightarrow> bool" where
  "has st n = (n \<in> fst ` set (snd (snd st)))"

section \<open>Notions for the proofs\<close>

text \<open>
  \<open>bol p\<close>: the position after \<open>p\<close> is the start of a line. \<open>heads xs x\<close>: the list of
  matches \<open>xs\<close> starts with \<open>x\<close>, the match that \<^verbatim>\<open>re\<close> reports. \<open>h_line\<close> is what a
  heading pass makes of one line: a line that starts with the marker and has at least one
  more character becomes the heading element around the rest of the line, any other line
  stays as it is.
\<close>

definition bol :: "char option \<Rightarrow> bool" where
  "bol p = (p = None \<or> p = Some CHR 0x0A)"

definition lastp :: "char option \<Rightarrow> string \<Rightarrow> char option" where
  "lastp p l = (if l = [] then p else Some (last l))"

definition line_pieces :: "(string \<Rightarrow> groups option) \<Rightarrow> string \<Rightarrow> piece list" where
  "line_pieces lm l = (case lm l of None \<Rightarrow> map C l | Some g \<Rightarrow> [M ((0, l) # g)])"

definition heading_line :: "string \<Rightarrow> string \<Rightarrow> groups option" where
  "heading_line mk l =
     (if startswith mk l \<and> length mk < length l then Some [(1, drop (length mk) l)] else None)"

definition heads :: "'a list \<Rightarrow> 'a \<Rightarrow> bool" where
  "heads xs x = (\<exists>rest. xs = x # rest)"

definition h_line :: "string \<Rightarrow> string \<Rightarrow> string \<Rightarrow> string \<Rightarrow> string" where
  "h_line mk a b l =
     (if startswith mk l \<and> length mk < length l then a @ drop (length mk) l @ b else l)"

definition h1_lines :: "string \<Rightarrow> string" where
  "h1_lines doc = join ''\<newline>'' (map (h_line ''# '' ''<h1>'' ''</h1>'') (split ''\<newline>'' doc))"

text \<open>
  \<open>line_suffixes s\<close> lists the text from the start of every line of \<open>s\<close> on.
  \<open>musthave lit r\<close>: every match of \<open>r\<close> contains \<open>lit\<close>. \<open>list_trigger\<close> and
  \<open>ol_trigger\<close> say of the text from the start of a line whether its first character
  that is not white space is a list marker, or a digit of a number that a period follows.
  \<open>inert s\<close>: nothing in \<open>s\<close> lets a pass after the first two match, and \<open>s\<close> is one
  chunk that the paragraph pass leaves as it is.
\<close>

fun tails_after_nl :: "string \<Rightarrow> string list" where
  "tails_after_nl [] = []"
| "tails_after_nl (c # s) = (if c = CHR 0x0A then [s] else []) @ tails_after_nl s"

definition line_suffixes :: "string \<Rightarrow> string list" where
  "line_suffixes s = s # tails_after_nl s"

definition musthave :: "string \<Rightarrow> re \<Rightarrow> bool" where
  "musthave lit r =
     (\<forall>p s g p' s' g' u. (p', s', g') \<in> set (rmatch r (p, s, g)) \<longrightarrow> s = u @ s' \<longrightarrow> contains lit u)"

definition list_trigger :: "string \<Rightarrow> bool" where
  "list_trigger s = (case dropWhile is_space s of [] \<Rightarrow> False | c # _ \<Rightarrow> one_of ''-*'' c)"

definition ol_trigger :: "string \<Rightarrow> bool" where
  "ol_trigger s =
     (case dropWhile is_space s of
        [] \<Rightarrow> False
      | c # u \<Rightarrow> is_digit c \<and> startswith ''.'' (dropWhile is_digit u))"

definition inert :: "string \<Rightarrow> bool" where
  "inert s =
     (\<not> contains ''## '' s \<and> \<not> contains ''--'' s \<and> \<not> contains ''`'' s
      \<and> \<not> contains ''*'' s \<and> \<not> contains ''!['' s \<and> \<not> contains ''|'' s
      \<and> list_all (\<lambda>t. \<not> list_trigger t \<and> \<not> ol_trigger t) (line_suffixes s)
      \<and> \<not> contains ''\<newline>\<newline>'' s \<and> wrap_paragraph s = s
      \<and> \<not> contains ''<p>'' s \<and> \<not> contains ''</p>'' s)"

text \<open>
  \<open>table_line r\<close>: \<open>r\<close> is a line that the table pattern takes as a row: it starts and
  ends with a pipe, has something between them and no newline. \<open>rows_text rows\<close> is the
  block of these rows, each ended by a newline. \<open>row_re\<close> is the group of the table pattern.
\<close>

definition table_line :: "string \<Rightarrow> bool" where
  "table_line r = (3 \<le> length r \<and> hd r = CHR ''|'' \<and> last r = CHR ''|'' \<and> CHR 0x0A \<notin> set r)"

definition row_re :: re where
  "row_re = Grp 1 (Seqs [Chr CHR ''|'', Plus (Cls dot), Chr CHR ''|'', Chr CHR 0x0A])"

definition rows_text :: "string list \<Rightarrow> string" where
  "rows_text rows = concat (map (\<lambda>r. r @ ''\<newline>'') rows)"

text \<open>
  The fenced blocks of a text, as the two fence patterns find them from left to right: the
  diagram blocks of the replacer and the code blocks of the converter.
\<close>

definition at_fence :: "string \<Rightarrow> bool" where
  "at_fence s = startswith ''```'' s"

fun before_fence :: "string \<Rightarrow> string option" where
  "before_fence [] = None"
| "before_fence (c # s) =
     (if at_fence (c # s) then Some []
      else (case before_fence s of None \<Rightarrow> None | Some b \<Rightarrow> Some (c # b)))"

datatype segment = Plain char | Block string

definition at_mermaid :: "string \<Rightarrow> bool" where
  "at_mermaid s = startswith ''```mermaid\<newline>'' s"

definition block_at :: "string \<Rightarrow> string option" where
  "block_at s = (if at_mermaid s then before_fence (drop 11 s) else None)"

function mermaid_segments :: "string \<Rightarrow> segment list" where
  "mermaid_segments s =
     (case block_at s of
        Some b \<Rightarrow> Block b # mermaid_segments (drop (length b + 14) s)
      | None \<Rightarrow> (case s of [] \<Rightarrow> [] | c # cs \<Rightarrow> Plain c # mermaid_segments cs))"
  by pat_completeness auto
termination
proof (relation "measure length", goal_cases)
  case (3 s b)
  then have "s \<noteq> []" by (auto simp: block_at_def at_mermaid_def split: if_splits)
  then show ?case by simp
qed auto

declare mermaid_segments.simps [simp del]

fun seg_text :: "segment \<Rightarrow> string" where
  "seg_text (Plain c) = [c]"
| "seg_text (Block b) = ''```mermaid\<newline>'' @ b @ ''```''"

fun seg_piece :: "segment \<Rightarrow> piece" where
  "seg_piece (Plain c) = C c"
| "seg_piece (Block b) = M [(0, ''```mermaid\<newline>'' @ b @ ''```'')]"

fun is_block :: "segment \<Rightarrow> bool" where
  "is_block (Plain c) = False"
| "is_block (Block b) = True"

definition count_blocks :: "segment list \<Rightarrow> nat" where
  "count_blocks segs = length (filter is_block segs)"

definition render :: "nat \<Rightarrow> segment list \<Rightarrow> string" where
  "render n segs =
     concat (map (\<lambda>i. case segs ! i of
                          Plain c \<Rightarrow> [c]
                        | Block b \<Rightarrow> figure (n + count_blocks (take (Suc i) segs)))
                 [0..<length segs])"

fun figures :: "nat \<Rightarrow> segment list \<Rightarrow> string" where
  "figures n [] = []"
| "figures n (Plain c # segs) = c # figures n segs"
| "figures n (Block b # segs) = figure (n + 1) @ figures (n + 1) segs"

datatype code_segment = Text char | Code string string

definition code_at :: "string \<Rightarrow> (string \<times> string) option" where
  "code_at s =
     (if at_fence s
      then (case dropWhile is_word (drop 3 s) of
              [] \<Rightarrow> None
            | c # v \<Rightarrow>
                if c = CHR 0x0A
                then (case before_fence v of
                        None \<Rightarrow> None
                      | Some b \<Rightarrow> Some (takeWhile is_word (drop 3 s), b))
                else None)
      else None)"

definition body_then_fence :: "string \<Rightarrow> char option \<Rightarrow> string \<Rightarrow> groups \<Rightarrow> mstate list" where
  "body_then_fence a p v g =
     concat (map (\<lambda>st. rmatch (Str ''```'')
                          (fst st, fst (snd st),
                           (1, take (length a + length v - length (fst (snd st))) (a @ v)) # snd (snd st)))
                 (rmatch (Lazy (Cls any_char)) (p, v, g)))"

function code_segments :: "string \<Rightarrow> code_segment list" where
  "code_segments s =
     (case code_at s of
        Some (tag, b) \<Rightarrow> Code tag b # code_segments (drop (length tag + length b + 7) s)
      | None \<Rightarrow> (case s of [] \<Rightarrow> [] | c # cs \<Rightarrow> Text c # code_segments cs))"
  by pat_completeness auto
termination
proof (relation "measure length", goal_cases)
  case (3 s tb tag b)
  then have "s \<noteq> []" by (auto simp: code_at_def at_fence_def split: if_splits)
  then show ?case by simp
qed auto

declare code_segments.simps [simp del]

fun code_text :: "code_segment \<Rightarrow> string" where
  "code_text (Text c) = [c]"
| "code_text (Code tag b) = ''```'' @ tag @ ''\<newline>'' @ b @ ''```''"

fun code_piece :: "code_segment \<Rightarrow> piece" where
  "code_piece (Text c) = C c"
| "code_piece (Code tag b) = M [(0, ''```'' @ tag @ ''\<newline>'' @ b @ ''```''), (1, b)]"

definition escape_char :: "char \<Rightarrow> string" where
  "escape_char c = (if c = CHR ''<'' then ''&lt;'' else if c = CHR ''>'' then ''&gt;'' else [c])"

fun code_html :: "code_segment \<Rightarrow> string" where
  "code_html (Text c) = [c]"
| "code_html (Code tag b) = ''<pre><code>'' @ concat (map escape_char b) @ ''</code></pre>''"

text \<open>
  \<open>endswith suf s\<close> is \<^verbatim>\<open>s.endswith(suf)\<close>. \<open>inject_meta\<close> is the injection of the metadata
  as it shows on the lines of a text: the block goes after a line that ends with the closing
  tag of a level-1 heading when the next line is empty and is not the last one.
\<close>

definition endswith :: "'a list \<Rightarrow> 'a list \<Rightarrow> bool" where
  "endswith suf s = (length suf \<le> length s \<and> drop (length s - length suf) s = suf)"

fun inject_meta :: "string list \<Rightarrow> string" where
  "inject_meta (l # e # m # ls) =
     (if endswith ''</h1>'' l \<and> e = []
      then take (length l - 5) l @ meta_block @ inject_meta (m # ls)
      else l @ ''\<newline>'' @ inject_meta (e # m # ls))"
| "inject_meta [l, e] = l @ ''\<newline>'' @ e"
| "inject_meta [l] = l"
| "inject_meta [] = []"

text \<open>
  The spans of a text, as the bold and the italic pattern find them from left to right:
  the marker \<open>mk\<close>, a non-empty run of characters other than \<open>c\<close>, the marker again.
  \<open>run_then\<close> is the matcher on a group of one or more characters of a class, followed by
  the rest of a pattern.
\<close>

definition run_then :: "(char \<Rightarrow> bool) \<Rightarrow> re \<Rightarrow> string \<Rightarrow> char option \<Rightarrow> string \<Rightarrow> groups \<Rightarrow> mstate list" where
  "run_then P K a p v g =
     concat (map (\<lambda>st. rmatch K
                          (fst st, fst (snd st),
                           (1, take (length a + length v - length (fst (snd st))) (a @ v)) # snd (snd st)))
                 (rmatch (Star (Cls P)) (p, v, g)))"

datatype span_segment = Lit char | Span string

definition span_at :: "string \<Rightarrow> char \<Rightarrow> string \<Rightarrow> string option" where
  "span_at mk c s =
     (if startswith mk s \<and> takeWhile (not_chr c) (drop (length mk) s) \<noteq> []
         \<and> startswith mk (dropWhile (not_chr c) (drop (length mk) s))
      then Some (takeWhile (not_chr c) (drop (length mk) s))
      else None)"

function span_segments :: "string \<Rightarrow> char \<Rightarrow> string \<Rightarrow> span_segment list" where
  "span_segments mk c s =
     (case span_at mk c s of
        Some b \<Rightarrow> Span b # span_segments mk c (drop (length b + 2 * length mk) s)
      | None \<Rightarrow> (case s of [] \<Rightarrow> [] | x # xs \<Rightarrow> Lit x # span_segments mk c xs))"
  by pat_completeness auto
termination
proof (relation "measure (\<lambda>(mk, c, s). length s)", goal_cases)
  case (3 mk c s b)
  then have "b \<noteq> []" "s \<noteq> []" by (auto simp: span_at_def split: if_splits)
  then show ?case by simp
qed auto

declare span_segments.simps [simp del]

fun span_text :: "string \<Rightarrow> span_segment \<Rightarrow> string" where
  "span_text mk (Lit x) = [x]"
| "span_text mk (Span b) = mk @ b @ mk"

fun span_html :: "string \<Rightarrow> span_segment \<Rightarrow> string" where
  "span_html tag (Lit x) = [x]"
| "span_html tag (Span b) = ''<'' @ tag @ ''>'' @ b @ ''</'' @ tag @ ''>''"

fun span_piece :: "string \<Rightarrow> span_segment \<Rightarrow> piece" where
  "span_piece mk (Lit x) = C x"
| "span_piece mk (Span b) = M [(0, mk @ b @ mk), (1, b)]"

text \<open>
  The table blocks of a text, as the table pattern finds them from left to right:
  \<open>rows_at s\<close> is the longest run of rows at the start of \<open>s\<close>, each a table line
  that a newline follows.
\<close>

function rows_at :: "string \<Rightarrow> string list" where
  "rows_at s =
     (if table_line (takeWhile dot s) \<and> dropWhile dot s \<noteq> []
      then takeWhile dot s # rows_at (tl (dropWhile dot s))
      else [])"
  by pat_completeness auto
termination
proof (relation "measure length", goal_cases)
  case (2 s)
  then have "length (tl (dropWhile dot s)) < length (dropWhile dot s)" by simp
  also have "\<dots> \<le> length s" by (rule length_dropWhile_le)
  finally show ?case by simp
qed auto

declare rows_at.simps [simp del]

datatype table_segment = Outside char | Table "string list"

function table_segments :: "string \<Rightarrow> table_segment list" where
  "table_segments s =
     (case rows_at s of
        [] \<Rightarrow> (case s of [] \<Rightarrow> [] | c # cs \<Rightarrow> Outside c # table_segments cs)
      | r # rs \<Rightarrow> Table (r # rs) # table_segments (drop (length (rows_text (r # rs))) s))"
  by pat_completeness auto
termination
proof (relation "measure length", goal_cases)
  case (3 s r rs)
  have "s \<noteq> []"
  proof
    assume "s = []"
    with 3 show False by (subst (asm) rows_at.simps) (simp add: table_line_def)
  qed
  then show ?case by (simp add: rows_text_def)
qed auto

declare table_segments.simps [simp del]

fun table_text :: "table_segment \<Rightarrow> string" where
  "table_text (Outside c) = [c]"
| "table_text (Table rows) = rows_text rows"

fun table_html :: "table_segment \<Rightarrow> string" where
  "table_html (Outside c) = [c]"
| "table_html (Table []) = ''<table>\<newline></table>''"
| "table_html (Table (h # rows)) =
     ''<table>\<newline>''
     @ (if contains ''---'' h then [] else table_row ''th'' h)
     @ concat (map (\<lambda>r. if contains ''---'' r then [] else table_row ''td'' r) rows)
     @ ''</table>''"

text \<open>
  \<open>plain s\<close>: the text \<open>s\<close> has none of the characters and line starts that a pass
  before the paragraph pass looks for, and no \<^verbatim>\<open><\<close>. \<open>wrap_chunk\<close> is what the paragraph
  pass does to a chunk without \<^verbatim>\<open><\<close>. \<open>calm t\<close>: no pattern of the cleanup pass matches at
  the start of \<open>t\<close>, and \<open>good s\<close>: every suffix of \<open>s\<close> is calm. \<open>occurs r s\<close>: the
  pattern \<open>r\<close> matches at some position of \<open>s\<close>.
\<close>

definition plain :: "string \<Rightarrow> bool" where
  "plain s =
     (\<not> contains ''# '' s \<and> \<not> contains ''--'' s \<and> \<not> contains ''`'' s
      \<and> \<not> contains ''*'' s \<and> \<not> contains ''!['' s \<and> \<not> contains ''|'' s
      \<and> \<not> contains ''<'' s
      \<and> list_all (\<lambda>t. \<not> list_trigger t \<and> \<not> ol_trigger t) (line_suffixes s))"

definition wrap_chunk :: "string \<Rightarrow> string" where
  "wrap_chunk c = (if strip c = [] then c else ''<p>'' @ strip c @ ''</p>'')"

definition calm :: "string \<Rightarrow> bool" where
  "calm t =
     (\<not> startswith ''\<newline></p>'' t
      \<and> (\<not> startswith ''<'' t \<or> startswith ''</p>'' t
         \<or> (startswith ''<p>'' t
            \<and> (case drop 3 t of [] \<Rightarrow> False | x # u \<Rightarrow> \<not> is_space x \<and> x \<noteq> CHR ''<''))))"

definition good :: "string \<Rightarrow> bool" where
  "good s = (list_all calm (suffixes s) \<and> \<not> startswith ''</p>'' s)"

definition occurs :: "re \<Rightarrow> string \<Rightarrow> bool" where
  "occurs r s = list_ex (\<lambda>i. rmatch r (lastp None (take i s), drop i s, []) \<noteq> []) [0..<Suc (length s)]"

(*PROOFS*)

section \<open>Every replacement finds its groups\<close>

lemma has_simps [simp]: "has (p, s, g) n = (n \<in> fst ` set g)"
  by (simp add: has_def)

lemma rmatch_Star_elem:
  "st' \<in> set (rmatch (Star r) (p, s, g)) \<Longrightarrow>
     st' = (p, s, g) \<or> (\<exists>st1 \<in> set (rmatch r (p, s, g)). length (fst (snd st1)) < length s \<and> st' \<in> set (rmatch (Star r) st1))"
  by (subst (asm) rmatch.simps(11)) (auto split: if_splits)

lemma rmatch_Lazy_elem:
  "st' \<in> set (rmatch (Lazy r) (p, s, g)) \<Longrightarrow>
     st' = (p, s, g) \<or> (\<exists>st1 \<in> set (rmatch r (p, s, g)). length (fst (snd st1)) < length s \<and> st' \<in> set (rmatch (Lazy r) st1))"
  by (subst (asm) rmatch.simps(12)) (auto split: if_splits)

lemma rmatch_Seq_elem:
  "st' \<in> set (rmatch (Seq r1 r2) st) \<Longrightarrow> \<exists>st1 \<in> set (rmatch r1 st). st' \<in> set (rmatch r2 st1)"
  by auto

lemma rmatch_Grp_elem:
  "st' \<in> set (rmatch (Grp k r) (p, s, g)) \<Longrightarrow>
     \<exists>p1 s1 g1. (p1, s1, g1) \<in> set (rmatch r (p, s, g)) \<and> st' = (p1, s1, (k, take (length s - length s1) s) # g1)"
  by auto

lemma rmatch_keeps:
  "st' \<in> set (rmatch r st) \<Longrightarrow> has st n \<Longrightarrow> has st' n"
proof (induction r st arbitrary: st' rule: rmatch.induct)
  case (1 c p g) then show ?case by simp
next
  case (2 c p x xs g) then show ?case by (simp split: if_splits)
next
  case (3 P p g) then show ?case by simp
next
  case (4 P p x xs g) then show ?case by (simp split: if_splits)
next
  case (5 p s g) then show ?case by (simp split: if_splits)
next
  case (6 p s g) then show ?case by (simp split: if_splits)
next
  case (7 p s g) then show ?case by (simp split: if_splits list.splits)
next
  case (8 st) then show ?case by simp
next
  case (10 r1 r2 st) from 10(3) have "st' \<in> set (rmatch r1 st) \<or> st' \<in> set (rmatch r2 st)" by simp
  with 10(1,2,4) show ?case by blast
next
  case (9 r1 r2 st)
  from rmatch_Seq_elem[OF 9(3)] obtain st1 where a: "st1 \<in> set (rmatch r1 st)"
    and b: "st' \<in> set (rmatch r2 st1)" by blast
  from 9(1)[OF a 9(4)] 9(2)[OF a b] show ?case by simp
next
  case (11 r p s g)
  from rmatch_Star_elem[OF 11(3)] show ?case
  proof
    assume "st' = (p, s, g)" with 11(4) show ?thesis by simp
  next
    assume "\<exists>st1 \<in> set (rmatch r (p, s, g)). length (fst (snd st1)) < length s \<and> st' \<in> set (rmatch (Star r) st1)"
    then obtain p1 s1 g1 where m: "(p1, s1, g1) \<in> set (rmatch r (p, s, g))" "length s1 < length s"
      "st' \<in> set (rmatch (Star r) (p1, s1, g1))" by fastforce
    from 11(2)[OF m(1) refl refl m(2) m(3)] 11(1)[OF m(1) 11(4)] show ?thesis by simp
  qed
next
  case (12 r p s g)
  from rmatch_Lazy_elem[OF 12(3)] show ?case
  proof
    assume "st' = (p, s, g)" with 12(4) show ?thesis by simp
  next
    assume "\<exists>st1 \<in> set (rmatch r (p, s, g)). length (fst (snd st1)) < length s \<and> st' \<in> set (rmatch (Lazy r) st1)"
    then obtain p1 s1 g1 where m: "(p1, s1, g1) \<in> set (rmatch r (p, s, g))" "length s1 < length s"
      "st' \<in> set (rmatch (Lazy r) (p1, s1, g1))" by fastforce
    from 12(2)[OF m(1) refl refl m(2) m(3)] 12(1)[OF m(1) 12(4)] show ?thesis by simp
  qed
next
  case (13 k r p s g)
  from rmatch_Grp_elem[OF 13(2)] obtain p1 s1 g1 where a: "(p1, s1, g1) \<in> set (rmatch r (p, s, g))"
    and b: "st' = (p1, s1, (k, take (length s - length s1) s) # g1)"
    by blast
  from 13(1)[OF a 13(3)] b show ?case by simp
qed

lemma rmatch_captures:
  "st' \<in> set (rmatch r st) \<Longrightarrow> n \<in> captured r \<Longrightarrow> has st' n"
proof (induction r arbitrary: st st')
  case (Seq r1 r2)
  from rmatch_Seq_elem[OF Seq(3)] obtain st1 where a: "st1 \<in> set (rmatch r1 st)"
    and b: "st' \<in> set (rmatch r2 st1)" by blast
  from Seq(4) have "n \<in> captured r1 \<or> n \<in> captured r2" by simp
  then show ?case
  proof
    assume "n \<in> captured r1"
    from rmatch_keeps[OF b Seq(1)[OF a this]] show ?thesis .
  next
    assume "n \<in> captured r2"
    from Seq(2)[OF b this] show ?thesis .
  qed
next
  case (Alt r1 r2)
  from Alt(3) have "st' \<in> set (rmatch r1 st) \<or> st' \<in> set (rmatch r2 st)" by simp
  moreover from Alt(4) have "n \<in> captured r1" "n \<in> captured r2" by simp_all
  ultimately show ?case using Alt(1,2) by blast
next
  case (Grp k r)
  obtain p s g where st: "st = (p, s, g)" by (cases st) auto
  from rmatch_Grp_elem[OF Grp(2)[unfolded st]] obtain p1 s1 g1 where
    a: "(p1, s1, g1) \<in> set (rmatch r (p, s, g))"
    and b: "st' = (p1, s1, (k, take (length s - length s1) s) # g1)"
    by blast
  show ?case
  proof (cases "n = k")
    case True with b show ?thesis by simp
  next
    case False
    with Grp(3) have "n \<in> captured r" by simp
    from Grp(1)[OF a this] b show ?thesis by simp
  qed
qed simp_all

lemma scan_M:
  "M m \<in> set (scan r adv p s) \<Longrightarrow>
     \<exists>w q t st. st \<in> set (rmatch r (q, t, [])) \<and> m = (0, w) # snd (snd st)"
proof (induction r adv p s rule: scan.induct)
  case (1 r adv p s)
  show ?case
  proof (cases "filter (\<lambda>(p', s', g'). if adv then length s' < length s else True) (rmatch r (p, s, []))")
    case Nil
    show ?thesis
    proof (cases s)
      case Nil
      with \<open>filter _ _ = []\<close> 1(4) show ?thesis by (subst (asm) scan.simps) simp
    next
      case (Cons c cs)
      with \<open>filter _ _ = []\<close> 1(4) have "M m \<in> set (scan r False (Some c) cs)"
        by (subst (asm) scan.simps) simp
      from 1(1)[OF \<open>filter _ _ = []\<close> Cons this] show ?thesis .
    qed
  next
    case (Cons st sts)
    obtain p' s' g' where st: "st = (p', s', g')" by (cases st) auto
    have mem: "(p', s', g') \<in> set (rmatch r (p, s, []))"
    proof -
      have "st \<in> set (filter (\<lambda>(p', s', g'). if adv then length s' < length s else True) (rmatch r (p, s, [])))"
        unfolding Cons by simp
      then show ?thesis unfolding st by simp
    qed
    show ?thesis
    proof (cases "length s' < length s")
      case True
      with Cons st 1(4) have "m = (0, take (length s - length s') s) # g' \<or> M m \<in> set (scan r False p' s')"
        by (subst (asm) scan.simps) auto
      then show ?thesis
      proof
        assume "m = (0, take (length s - length s') s) # g'"
        with mem show ?thesis by force
      next
        assume "M m \<in> set (scan r False p' s')"
        from 1(2)[OF Cons[unfolded st] refl refl True this] show ?thesis .
      qed
    next
      case False
      with Cons st 1(4) have "m = (0, []) # g' \<or> (\<not> adv \<and> M m \<in> set (scan r True p s))"
        by (subst (asm) scan.simps) (auto split: if_splits)
      then show ?thesis
      proof
        assume "m = (0, []) # g'"
        with mem show ?thesis by force
      next
        assume a: "\<not> adv \<and> M m \<in> set (scan r True p s)"
        from 1(3)[OF Cons[unfolded st] refl refl False] a show ?thesis by blast
      qed
    qed
  qed
qed

lemma scan_groups:
  assumes "M m \<in> set (scan r adv p s)" and "n = 0 \<or> n \<in> captured r"
  shows "n \<in> fst ` set m"
proof -
  from scan_M[OF assms(1)] obtain w q t st where
    st: "st \<in> set (rmatch r (q, t, []))" and m: "m = (0, w) # snd (snd st)" by blast
  from assms(2) show ?thesis
  proof
    assume "n = 0" with m show ?thesis by simp
  next
    assume "n \<in> captured r"
    from rmatch_captures[OF st this] m show ?thesis by (simp add: has_def)
  qed
qed

lemma subst_total:
  assumes "\<And>m. M m \<in> set ps \<Longrightarrow> \<exists>out. f m = Inr out"
  shows "\<exists>out. subst f ps = Inr out"
  using assms
proof (induction ps)
  case Nil
  then show ?case by simp
next
  case (Cons a ps)
  then obtain out where out: "subst f ps = Inr out" by auto
  show ?case
  proof (cases a)
    case (C c)
    with out show ?thesis by simp
  next
    case (M m)
    with Cons(2) obtain r where "f m = Inr r" by auto
    with out M show ?thesis by simp
  qed
qed

lemma re_sub_total:
  assumes "\<And>m. 0 \<in> fst ` set m \<Longrightarrow> (\<forall>n \<in> captured r. n \<in> fst ` set m) \<Longrightarrow> \<exists>out. f m = Inr out"
  shows "\<exists>out. re_sub r f s = Inr out"
  unfolding re_sub_def
proof (rule subst_total)
  fix m assume "M m \<in> set (scan r False None s)"
  then have "0 \<in> fst ` set m" "\<forall>n \<in> captured r. n \<in> fst ` set m"
    using scan_groups by blast+
  then show "\<exists>out. f m = Inr out" by (rule assms)
qed

lemma expand_total:
  assumes "\<And>n. G n \<in> set ts \<Longrightarrow> n \<in> fst ` set m"
  shows "\<exists>out. expand ts m = Inr out"
  using assms
proof (induction ts)
  case Nil
  then show ?case by simp
next
  case (Cons a ts)
  then obtain out where out: "expand ts m = Inr out" by auto
  show ?case
  proof (cases a)
    case (T t)
    with out show ?thesis by simp
  next
    case (G n)
    with Cons(2) have "n \<in> fst ` set m" by simp
    then obtain v where "map_of m n = Some v"
      by (metis map_of_eq_None_iff not_Some_eq)
    with out G show ?thesis by simp
  qed
qed

lemma group_total: "n \<in> fst ` set m \<Longrightarrow> \<exists>v. group m n = Inr v"
  by (cases "map_of m n") (auto simp: group_def map_of_eq_None_iff)

lemma list_items_total: "\<exists>out. list_items marker items = Inr out"
proof (induction items)
  case Nil
  then show ?case by simp
next
  case (Cons item items)
  have "\<exists>out. re_sub marker (expand []) item = Inr out"
    by (rule re_sub_total) simp
  with Cons show ?case by auto
qed

lemma captured_Seqs: "captured (Seqs rs) = (\<Union>r \<in> set rs. captured r)"
  by (induction rs) (auto simp: Seqs_def)

lemma captured_Plus [simp]: "captured (Plus r) = captured r"
  by (simp add: Plus_def)

lemma pass_heading: "\<exists>out. re_sub (heading_re mk) (expand [T a, G 1, T b]) s = Inr out"
  by (rule re_sub_total, rule expand_total) (auto simp: heading_re_def captured_Seqs)

lemma pass_hr: "\<exists>out. re_sub hr_re (expand [T a]) s = Inr out"
  by (rule re_sub_total, rule expand_total) auto

lemma pass_code: "\<exists>out. re_sub code_block_re format_code_block s = Inr out"
proof (rule re_sub_total)
  fix m :: groups assume "\<forall>n \<in> captured code_block_re. n \<in> fst ` set m"
  then have "1 \<in> fst ` set m" by (simp add: code_block_re_def captured_Seqs)
  from group_total[OF this] show "\<exists>out. format_code_block m = Inr out"
    by (auto simp: format_code_block_def)
qed

lemma pass_inline: "\<exists>out. re_sub inline_code_re (expand [T a, G 1, T b]) s = Inr out"
  by (rule re_sub_total, rule expand_total) (auto simp: inline_code_re_def captured_Seqs)

lemma pass_bold: "\<exists>out. re_sub bold_re (expand [T a, G 1, T b]) s = Inr out"
  by (rule re_sub_total, rule expand_total) (auto simp: bold_re_def captured_Seqs)

lemma pass_italic: "\<exists>out. re_sub italic_re (expand [T a, G 1, T b]) s = Inr out"
  by (rule re_sub_total, rule expand_total) (auto simp: italic_re_def captured_Seqs)

lemma pass_image: "\<exists>out. re_sub image_re (expand image_template) s = Inr out"
  by (rule re_sub_total, rule expand_total) (auto simp: image_re_def image_template_def captured_Seqs)

lemma pass_table: "\<exists>out. re_sub table_re format_table s = Inr out"
proof (rule re_sub_total)
  fix m :: groups assume "0 \<in> fst ` set m"
  from group_total[OF this] show "\<exists>out. format_table m = Inr out"
    by (auto simp: format_table_def)
qed

lemma pass_list: "\<exists>out. re_sub list_re format_list s = Inr out"
proof (rule re_sub_total)
  fix m :: groups assume "0 \<in> fst ` set m"
  from group_total[OF this] obtain whole where w: "group m 0 = Inr whole" by blast
  from list_items_total obtain html where
    "list_items list_marker_re (split ''\<newline>'' (strip whole)) = Inr html" by blast
  with w show "\<exists>out. format_list m = Inr out"
    by (simp add: format_list_def)
qed

lemma pass_ol: "\<exists>out. re_sub ol_re format_ol s = Inr out"
proof (rule re_sub_total)
  fix m :: groups assume "0 \<in> fst ` set m"
  from group_total[OF this] obtain whole where w: "group m 0 = Inr whole" by blast
  from list_items_total obtain html where
    "list_items ol_marker_re (split ''\<newline>'' (strip whole)) = Inr html" by blast
  with w show "\<exists>out. format_ol m = Inr out"
    by (simp add: format_ol_def)
qed

lemma pass_empty_p: "\<exists>out. re_sub empty_p_re (expand []) s = Inr out"
  by (rule re_sub_total) simp

lemma captured_Alts_Cons: "rs \<noteq> [] \<Longrightarrow> captured (Alts (r # rs)) = captured r \<inter> captured (Alts rs)"
  by (simp add: Alts_def)

lemma pass_p_before: "\<exists>out. re_sub p_before_block_re (expand [G 1]) s = Inr out"
  by (rule re_sub_total, rule expand_total) (auto simp: p_before_block_re_def captured_Seqs)

lemma pass_p_after: "\<exists>out. re_sub p_after_block_re (expand [G 1]) s = Inr out"
  by (rule re_sub_total, rule expand_total) (auto simp: p_after_block_re_def captured_Seqs)

lemma pass_cleanup: "\<exists>out. cleanup_pass s = Inr out"
proof -
  obtain a where a: "re_sub empty_p_re (expand []) (replace ''\<newline></p>'' ''</p>'' s) = Inr a"
    using pass_empty_p by blast
  obtain b where b: "re_sub p_before_block_re (expand [G 1]) a = Inr b"
    using pass_p_before by blast
  obtain c where c: "re_sub p_after_block_re (expand [G 1]) b = Inr c"
    using pass_p_after by blast
  from a b c show ?thesis by (simp add: cleanup_pass_def)
qed

lemma run_total:
  assumes "\<And>f x. f \<in> set fs \<Longrightarrow> \<exists>y. f x = Inr y"
  shows "\<exists>y. foldl and_then (Inr x) fs = Inr y"
  using assms
proof (induction fs arbitrary: x)
  case Nil
  then show ?case by simp
next
  case (Cons f fs)
  from Cons(2)[of f x] obtain y where "f x = Inr y" by auto
  moreover from Cons(1)[of y] Cons(2) obtain z where "foldl and_then (Inr y) fs = Inr z" by auto
  ultimately show ?case by simp
qed

lemma md_to_html_returns: "\<exists>out. md_to_html text = Inr out"
  unfolding md_to_html_def
proof (rule run_total)
  fix f x assume "f \<in> set passes"
  then show "\<exists>y. f x = Inr y"
    unfolding passes_def title_pass_def meta_pass_def h2_pass_def h3_pass_def hr_pass_def
      code_block_pass_def inline_code_pass_def bold_pass_def italic_pass_def image_pass_def
      table_pass_def list_pass_def ol_pass_def
    using pass_heading pass_hr pass_code pass_inline pass_bold pass_italic pass_image pass_table
      pass_list pass_ol pass_cleanup
    by auto
qed

section \<open>Matches of the patterns\<close>

lemma scan_miss:
  "rmatch r (p, c # cs, []) = [] \<Longrightarrow> scan r False p (c # cs) = C c # scan r False (Some c) cs"
  by (subst scan.simps) simp

lemma scan_end: "rmatch r (p, [], []) = [] \<Longrightarrow> scan r False p [] = []"
  by (subst scan.simps) simp

lemma scan_hit:
  "rmatch r (p, s, []) = (p', s', g') # rest \<Longrightarrow> length s' < length s \<Longrightarrow>
   scan r False p s = M ((0, take (length s - length s') s) # g') # scan r False p' s'"
  by (subst scan.simps) simp

lemma Str_Nil [simp]: "Str [] = Eps"
  by (simp add: Str_def)

lemma Str_Cons [simp]: "Str (c # cs) = Seq (Chr c) (Str cs)"
  by (simp add: Str_def)

lemma Seqs_Nil [simp]: "Seqs [] = Eps"
  by (simp add: Seqs_def)

lemma Seqs_Cons [simp]: "Seqs (r # rs) = Seq r (Seqs rs)"
  by (simp add: Seqs_def)

lemma rmatch_Str:
  "rmatch (Str lit) (p, s, g) =
     (if startswith lit s then [(lastp p lit, drop (length lit) s, g)] else [])"
proof (induction lit arbitrary: p s)
  case Nil
  then show ?case by (simp add: lastp_def)
next
  case (Cons c lit)
  show ?case
  proof (cases s)
    case Nil
    then show ?thesis by simp
  next
    case (Cons x xs)
    with Cons.IH show ?thesis by (auto simp: lastp_def)
  qed
qed

lemma rmatch_Star_Cls_Nil [simp]: "rmatch (Star (Cls P)) (p, [], g) = [(p, [], g)]"
  by (subst rmatch.simps(11)) simp

lemma rmatch_Star_Cls_Cons [simp]:
  "rmatch (Star (Cls P)) (p, c # cs, g) =
     (if P c then rmatch (Star (Cls P)) (Some c, cs, g) else []) @ [(p, c # cs, g)]"
  by (subst rmatch.simps(11)) simp

lemma rmatch_Star_Cls_hd:
  assumes "\<forall>c \<in> set l. P c" and "r = [] \<or> \<not> P (hd r)"
  shows "\<exists>rest. rmatch (Star (Cls P)) (p, l @ r, g) = (lastp p l, r, g) # rest"
  using assms
proof (induction l arbitrary: p)
  case Nil
  then show ?case by (cases r) (auto simp: lastp_def)
next
  case (Cons a l)
  then obtain rest where "rmatch (Star (Cls P)) (Some a, l @ r, g) = (lastp (Some a) l, r, g) # rest"
    by fastforce
  with Cons.prems show ?case by (simp add: lastp_def)
qed

lemma rmatch_Plus_Cls_hd:
  assumes "\<forall>c \<in> set l. P c" and "r = [] \<or> \<not> P (hd r)" and "l \<noteq> []"
  shows "\<exists>rest. rmatch (Plus (Cls P)) (p, l @ r, g) = (Some (last l), r, g) # rest"
proof -
  from assms(3) obtain a l' where l: "l = a # l'" by (cases l) auto
  with assms(1) have "\<forall>c \<in> set l'. P c" "P a" by auto
  from rmatch_Star_Cls_hd[OF this(1) assms(2), of "Some a" g] obtain rest where
    "rmatch (Star (Cls P)) (Some a, l' @ r, g) = (lastp (Some a) l', r, g) # rest" by blast
  with l \<open>P a\<close> show ?thesis by (simp add: Plus_def lastp_def)
qed

lemma rmatch_Plus_Cls_none:
  assumes "s = [] \<or> \<not> P (hd s)"
  shows "rmatch (Plus (Cls P)) (p, s, g) = []"
  using assms by (cases s) (auto simp: Plus_def)

lemma startswith_append: "startswith a (a @ b)"
  by (induction a) auto

lemma startswith_iff: "startswith a s \<longleftrightarrow> (\<exists>b. s = a @ b)"
proof (induction a s rule: startswith.induct)
qed auto

lemma startswith_take: "startswith a s \<longleftrightarrow> take (length a) s = a"
  by (induction a s rule: startswith.induct) auto

lemma startswith_line:
  assumes "CHR 0x0A \<notin> set mk" and "r = [] \<or> hd r = CHR 0x0A"
  shows "startswith mk (l @ r) \<longleftrightarrow> startswith mk l"
proof (cases "length mk \<le> length l")
  case True
  then show ?thesis by (simp add: startswith_take)
next
  case False
  then have "\<not> startswith mk l"
    by (auto simp: startswith_iff)
  moreover have "\<not> startswith mk (l @ r)"
  proof
    assume "startswith mk (l @ r)"
    then have t: "take (length mk) (l @ r) = mk" by (simp add: startswith_take)
    from False assms(2) t have "r \<noteq> []" by auto
    with assms(2) obtain r' where r: "r = CHR 0x0A # r'" by (cases r) auto
    from t False have "mk = l @ take (length mk - length l) r" by simp
    with r False have "CHR 0x0A \<in> set mk"
      by (metis Suc_diff_Suc in_set_conv_decomp not_le take_Suc_Cons)
    with assms(1) show False by simp
  qed
  ultimately show ?thesis by simp
qed

lemma heads_single [simp]: "heads [x] y \<longleftrightarrow> x = y"
  by (auto simp: heads_def)

lemma heads_Cons [simp]: "heads (x # xs) y \<longleftrightarrow> x = y"
  by (auto simp: heads_def)

lemma heads_Nil [simp]: "\<not> heads [] y"
  by (auto simp: heads_def)

lemma heads_Seq:
  "heads (rmatch r1 st) st1 \<Longrightarrow> heads (rmatch r2 st1) st2 \<Longrightarrow> heads (rmatch (Seq r1 r2) st) st2"
  by (auto simp: heads_def)

lemma heads_Grp:
  "heads (rmatch r (p, s, g)) (p', s', g') \<Longrightarrow>
   heads (rmatch (Grp n r) (p, s, g)) (p', s', (n, take (length s - length s') s) # g')"
  by (auto simp: heads_def)

lemma heads_Str:
  "startswith lit s \<Longrightarrow> heads (rmatch (Str lit) (p, s, g)) (lastp p lit, drop (length lit) s, g)"
  by (simp add: rmatch_Str)

lemma heads_Bol: "bol p \<Longrightarrow> heads (rmatch Bol (p, s, g)) (p, s, g)"
  by (auto simp: bol_def)

lemma heads_Eol: "r = [] \<or> hd r = CHR 0x0A \<Longrightarrow> heads (rmatch Eol (p, r, g)) (p, r, g)"
  by (cases r) auto

lemma heads_Eps: "heads (rmatch Eps st) st"
  by simp

lemma heads_Plus_Cls:
  assumes "\<forall>c \<in> set l. P c" and "r = [] \<or> \<not> P (hd r)" and "l \<noteq> []"
  shows "heads (rmatch (Plus (Cls P)) (p, l @ r, g)) (Some (last l), r, g)"
  using rmatch_Plus_Cls_hd[OF assms] by (simp add: heads_def)

lemma heading_hit:
  assumes "bol p" and "CHR 0x0A \<notin> set l" and "r = [] \<or> hd r = CHR 0x0A"
    and "CHR 0x0A \<notin> set mk" and "heading_line mk l = Some g"
  shows "l \<noteq> [] \<and> heads (rmatch (heading_re mk) (p, l @ r, [])) (Some (last l), r, g)"
proof -
  from assms(5) have sw: "startswith mk l" and len: "length mk < length l"
    and g: "g = [(1, drop (length mk) l)]"
    by (auto simp: heading_line_def split: if_splits)
  from sw obtain t where l: "l = mk @ t" by (auto simp: startswith_iff)
  with len have t: "t \<noteq> []" by auto
  from assms(2) l have dots: "\<forall>c \<in> set t. dot c" by (auto simp: dot_def)
  from assms(3) have stop: "r = [] \<or> \<not> dot (hd r)" by (auto simp: dot_def)
  have 1: "heads (rmatch (Str mk) (p, mk @ t @ r, [])) (lastp p mk, t @ r, [])"
    using heads_Str[of mk "mk @ t @ r" p "[]"] by (simp add: startswith_append)
  have 2: "heads (rmatch (Grp 1 (Plus (Cls dot))) (lastp p mk, t @ r, [])) (Some (last t), r, [(1, t)])"
    using heads_Grp[OF heads_Plus_Cls[OF dots stop t, of "lastp p mk" "[]"], of 1] by simp
  have 3: "heads (rmatch (Seq Eol Eps) (Some (last t), r, [(1, t)])) (Some (last t), r, [(1, t)])"
    by (rule heads_Seq[OF heads_Eol[OF assms(3)] heads_Eps])
  have "heads (rmatch (heading_re mk) (p, mk @ t @ r, [])) (Some (last t), r, [(1, t)])"
    unfolding heading_re_def Seqs_Cons Seqs_Nil
    by (rule heads_Seq[OF heads_Bol[OF assms(1)] heads_Seq[OF 1 heads_Seq[OF 2 3]]])
  with l t g show ?thesis by simp
qed

lemma heading_miss:
  assumes "CHR 0x0A \<notin> set l" and "r = [] \<or> hd r = CHR 0x0A"
    and "CHR 0x0A \<notin> set mk" and "heading_line mk l = None"
  shows "rmatch (heading_re mk) (p, l @ r, []) = []"
proof (cases "startswith mk l")
  case False
  with startswith_line[OF assms(3) assms(2), of l] have "\<not> startswith mk (l @ r)" by simp
  then show ?thesis by (simp add: heading_re_def rmatch_Str)
next
  case True
  with assms(4) have "length l \<le> length mk" by (auto simp: heading_line_def split: if_splits)
  with True have l: "l = mk" by (auto simp: startswith_iff)
  from assms(2) have "r = [] \<or> \<not> dot (hd r)" by (auto simp: dot_def)
  then have "rmatch (Plus (Cls dot)) (lastp p mk, r, []) = []"
    by (rule rmatch_Plus_Cls_none)
  with l show ?thesis
    by (simp add: heading_re_def rmatch_Str startswith_append)
qed

lemma rmatch_Bol_not: "\<not> bol p \<Longrightarrow> rmatch (Seq Bol r) (p, s, g) = []"
  by (auto simp: bol_def)

lemma heading_nobol: "\<not> bol p \<Longrightarrow> rmatch (heading_re mk) (p, s, []) = []"
  unfolding heading_re_def Seqs_Cons by (rule rmatch_Bol_not)

lemma split_nonempty: "split sep s \<noteq> []"
  by (subst split.simps) (auto split: list.splits)

lemma split_single_no: "c \<notin> set l \<Longrightarrow> split [c] l = [l]"
proof (induction l)
  case Nil
  then show ?case by (subst split.simps) simp
next
  case (Cons a l)
  then show ?case by (subst split.simps) auto
qed

lemma split_single_app: "c \<notin> set l \<Longrightarrow> split [c] (l @ c # r) = l # split [c] r"
proof (induction l)
  case Nil
  then show ?case by (subst split.simps) simp
next
  case (Cons a l)
  then show ?case by (subst split.simps) auto
qed

lemma join_Cons: "ys \<noteq> [] \<Longrightarrow> join sep (x # ys) = x @ sep @ join sep ys"
  by (cases ys) auto

lemma scan_inside:
  assumes nobol: "\<And>p s. \<not> bol p \<Longrightarrow> rmatch R (p, s, []) = []"
  shows "\<not> bol q \<Longrightarrow> CHR 0x0A \<notin> set l \<Longrightarrow>
         scan R False q (l @ r) = map C l @ scan R False (lastp q l) r"
proof (induction l arbitrary: q)
  case Nil
  then show ?case by (simp add: lastp_def)
next
  case (Cons a l)
  from Cons.prems have a: "\<not> bol (Some a)" by (auto simp: bol_def)
  have "scan R False q (a # l @ r) = C a # scan R False (Some a) (l @ r)"
    by (rule scan_miss) (rule nobol[OF Cons.prems(1)])
  moreover from Cons.IH[OF a] Cons.prems(2)
  have "scan R False (Some a) (l @ r) = map C l @ scan R False (lastp (Some a) l) r" by simp
  ultimately show ?case by (simp add: lastp_def)
qed

lemma line_decomp:
  obtains l r where "doc = l @ r" "CHR 0x0A \<notin> set l" "r = [] \<or> (\<exists>r'. r = CHR 0x0A # r')"
proof -
  let ?l = "takeWhile (\<lambda>c. c \<noteq> CHR 0x0A) doc"
  let ?r = "dropWhile (\<lambda>c. c \<noteq> CHR 0x0A) doc"
  have "doc = ?l @ ?r" by simp
  moreover have "CHR 0x0A \<notin> set ?l" by (auto dest: set_takeWhileD)
  moreover have "?r = [] \<or> (\<exists>r'. ?r = CHR 0x0A # r')"
  proof (cases ?r)
    case Nil then show ?thesis by simp
  next
    case (Cons a r')
    then have "a = CHR 0x0A" using hd_dropWhile[of "\<lambda>c. c \<noteq> CHR 0x0A" doc] by force
    with Cons show ?thesis by simp
  qed
  ultimately show ?thesis by (rule that)
qed

lemma linewise_scan:
  assumes nobol: "\<And>p s. \<not> bol p \<Longrightarrow> rmatch R (p, s, []) = []"
    and miss: "\<And>p l r. bol p \<Longrightarrow> CHR 0x0A \<notin> set l \<Longrightarrow> r = [] \<or> hd r = CHR 0x0A \<Longrightarrow>
                 lm l = None \<Longrightarrow> rmatch R (p, l @ r, []) = []"
    and hit: "\<And>p l r g. bol p \<Longrightarrow> CHR 0x0A \<notin> set l \<Longrightarrow> r = [] \<or> hd r = CHR 0x0A \<Longrightarrow>
                 lm l = Some g \<Longrightarrow> l \<noteq> [] \<and> heads (rmatch R (p, l @ r, [])) (Some (last l), r, g)"
  shows "bol p \<Longrightarrow> scan R False p doc = join [C CHR 0x0A] (map (line_pieces lm) (split ''\<newline>'' doc))"
proof (induction "length doc" arbitrary: doc p rule: less_induct)
  case less
  obtain l r where doc: "doc = l @ r" and l: "CHR 0x0A \<notin> set l"
    and r: "r = [] \<or> (\<exists>r'. r = CHR 0x0A # r')"
    by (rule line_decomp)
  from r have r': "r = [] \<or> hd r = CHR 0x0A" by auto
  \<comment> \<open>the line itself\<close>
  have body: "scan R False p (l @ r) = line_pieces lm l @ scan R False (lastp p l) r"
    and stop: "rmatch R (lastp p l, r, []) = []"
  proof -
    show "scan R False p (l @ r) = line_pieces lm l @ scan R False (lastp p l) r"
    proof (cases "lm l")
      case None
      show ?thesis
      proof (cases l)
        case Nil
        with None show ?thesis by (simp add: line_pieces_def lastp_def)
      next
        case (Cons a l')
        with l have a: "\<not> bol (Some a)" and l': "CHR 0x0A \<notin> set l'" by (auto simp: bol_def)
        have "rmatch R (p, l @ r, []) = []" by (rule miss[OF less.prems l r' None])
        then have "scan R False p (a # l' @ r) = C a # scan R False (Some a) (l' @ r)"
          unfolding Cons by (simp add: scan_miss)
        also have "scan R False (Some a) (l' @ r) = map C l' @ scan R False (lastp (Some a) l') r"
          by (rule scan_inside[OF nobol a l'])
        finally show ?thesis using None Cons by (simp add: line_pieces_def lastp_def)
      qed
    next
      case (Some g)
      from hit[OF less.prems l r' Some] have ne: "l \<noteq> []"
        and h: "heads (rmatch R (p, l @ r, [])) (Some (last l), r, g)" by auto
      from h obtain rest where m: "rmatch R (p, l @ r, []) = (Some (last l), r, g) # rest"
        by (auto simp: heads_def)
      from ne have "length r < length (l @ r)" by simp
      from scan_hit[OF m this] Some ne show ?thesis
        by (simp add: line_pieces_def lastp_def)
    qed
    show "rmatch R (lastp p l, r, []) = []"
    proof (cases l)
      case Nil
      have "lm [] = None"
      proof (cases "lm []")
        case (Some g)
        from hit[OF less.prems _ _ Some, of "[]"] show ?thesis by simp
      qed simp
      from miss[OF less.prems _ r' this] Nil show ?thesis by (simp add: lastp_def)
    next
      case (Cons a l')
      then have "last l \<in> set l" by simp
      with l have "last l \<noteq> CHR 0x0A" by metis
      with Cons have "\<not> bol (lastp p l)" by (simp add: bol_def lastp_def)
      then show ?thesis by (rule nobol)
    qed
  qed
  from r show ?case
  proof
    assume "r = []"
    with body stop doc l show ?thesis
      by (simp add: scan_end split_single_no)
  next
    assume "\<exists>r'. r = CHR 0x0A # r'"
    then obtain r' where rr: "r = CHR 0x0A # r'" by blast
    have "length r' < length doc" using doc rr by simp
    from less.hyps[OF this, of "Some CHR 0x0A"]
    have ih: "scan R False (Some CHR 0x0A) r' = join [C CHR 0x0A] (map (line_pieces lm) (split ''\<newline>'' r'))"
      by (simp add: bol_def)
    from stop rr have "scan R False (lastp p l) r = C CHR 0x0A # scan R False (Some CHR 0x0A) r'"
      by (simp add: scan_miss)
    with body ih doc rr l show ?thesis
      by (simp add: split_single_app join_Cons split_nonempty)
  qed
qed

lemma subst_append:
  "subst f (xs @ ys) =
     (case subst f xs of Inl e \<Rightarrow> Inl e
      | Inr a \<Rightarrow> (case subst f ys of Inl e \<Rightarrow> Inl e | Inr b \<Rightarrow> Inr (a @ b)))"
proof (induction xs)
  case Nil
  then show ?case by (simp split: sum.splits)
next
  case (Cons x xs)
  then show ?case by (cases x) (simp_all split: sum.splits)
qed

lemma subst_map_C [simp]: "subst f (map C l) = Inr l"
  by (induction l) simp_all

lemma subst_lines:
  assumes "\<And>l g. lm l = Some g \<Longrightarrow> f ((0, l) # g) = Inr (out l)"
  shows "subst f (join [C CHR 0x0A] (map (line_pieces lm) ls))
         = Inr (join ''\<newline>'' (map (\<lambda>l. case lm l of None \<Rightarrow> l | Some g \<Rightarrow> out l) ls))"
proof (induction ls)
  case Nil
  then show ?case by simp
next
  case (Cons l ls)
  have one: "subst f (line_pieces lm l) = Inr (case lm l of None \<Rightarrow> l | Some g \<Rightarrow> out l)"
    by (cases "lm l") (simp_all add: line_pieces_def assms)
  show ?case
  proof (cases ls)
    case Nil
    with one show ?thesis by simp
  next
    case (Cons l' ls')
    then have ne: "ls \<noteq> []" "map (line_pieces lm) ls \<noteq> []"
      "map (\<lambda>l. case lm l of None \<Rightarrow> l | Some g \<Rightarrow> out l) ls \<noteq> []" by simp_all
    show ?thesis
      using one Cons.IH
      by (simp add: join_Cons[OF ne(2)] join_Cons[OF ne(3)] subst_append)
  qed
qed

lemma heading_pass_lines:
  assumes "CHR 0x0A \<notin> set mk"
  shows "re_sub (heading_re mk) (expand [T a, G 1, T b]) doc
         = Inr (join ''\<newline>'' (map (h_line mk a b) (split ''\<newline>'' doc)))"
proof -
  have sc: "scan (heading_re mk) False None doc
            = join [C CHR 0x0A] (map (line_pieces (heading_line mk)) (split ''\<newline>'' doc))"
  proof (rule linewise_scan)
    show "bol None" by (simp add: bol_def)
  next
    fix p s assume "\<not> bol p"
    then show "rmatch (heading_re mk) (p, s, []) = []" by (rule heading_nobol)
  next
    fix p :: "char option" and l r :: string
    assume "bol p" "CHR 0x0A \<notin> set l" "r = [] \<or> hd r = CHR 0x0A" "heading_line mk l = None"
    then show "rmatch (heading_re mk) (p, l @ r, []) = []"
      using heading_miss[OF _ _ assms] by blast
  next
    fix p :: "char option" and l r :: string and g
    assume "bol p" "CHR 0x0A \<notin> set l" "r = [] \<or> hd r = CHR 0x0A" "heading_line mk l = Some g"
    then show "l \<noteq> [] \<and> heads (rmatch (heading_re mk) (p, l @ r, [])) (Some (last l), r, g)"
      using heading_hit[OF _ _ _ assms] by blast
  qed
  have f: "\<And>l g. heading_line mk l = Some g \<Longrightarrow>
             expand [T a, G 1, T b] ((0, l) # g) = Inr (a @ drop (length mk) l @ b)"
    by (auto simp: heading_line_def split: if_splits)
  have "(\<lambda>l. case heading_line mk l of None \<Rightarrow> l | Some g \<Rightarrow> a @ drop (length mk) l @ b) = h_line mk a b"
    by (auto simp: heading_line_def h_line_def fun_eq_iff)
  with subst_lines[of "heading_line mk" "expand [T a, G 1, T b]" "\<lambda>l. a @ drop (length mk) l @ b", OF f]
  show ?thesis unfolding re_sub_def sc by simp
qed

lemma title_pass_lines:
  "title_pass doc = Inr (join ''\<newline>'' (map (h_line ''# '' ''<h1>'' ''</h1>'') (split ''\<newline>'' doc)))"
  unfolding title_pass_def by (rule heading_pass_lines) simp

lemma replace_Nil: "old \<noteq> [] \<Longrightarrow> replace old new [] = []"
  by (subst replace.simps) (cases old; simp)

lemma replace_miss:
  "old \<noteq> [] \<Longrightarrow> \<not> startswith old (c # s) \<Longrightarrow> replace old new (c # s) = c # replace old new s"
  by (subst replace.simps) simp

lemma replace_hit: "old \<noteq> [] \<Longrightarrow> replace old new (old @ s) = new @ replace old new s"
  by (subst replace.simps) (simp add: startswith_append)

lemma replace_none: "old \<noteq> [] \<Longrightarrow> \<not> contains old s \<Longrightarrow> replace old new s = s"
proof (induction s)
  case Nil
  then show ?case by (simp add: replace_Nil)
next
  case (Cons c s)
  then show ?case by (simp add: replace_miss)
qed

lemma replace_skip:
  assumes "old \<noteq> []"
  shows "(\<And>k. k < length a \<Longrightarrow> \<not> startswith old (drop k a @ s)) \<Longrightarrow>
         replace old new (a @ s) = a @ replace old new s"
proof (induction a)
  case Nil
  then show ?case by simp
next
  case (Cons c a)
  from Cons.prems[of 0] have "\<not> startswith old (c # a @ s)" by simp
  moreover have "replace old new (a @ s) = a @ replace old new s"
  proof (rule Cons.IH)
    fix k assume "k < length a"
    with Cons.prems[of "Suc k"] show "\<not> startswith old (drop k a @ s)" by simp
  qed
  ultimately show ?case using assms by (simp add: replace_miss)
qed

lemma contains_set: "contains sub s \<Longrightarrow> set sub \<subseteq> set s"
proof (induction s)
  case Nil
  then show ?case by simp
next
  case (Cons c s)
  from Cons.prems have "startswith sub (c # s) \<or> contains sub s" by simp
  then show ?case
  proof
    assume "startswith sub (c # s)"
    then obtain b where "c # s = sub @ b" by (auto simp: startswith_iff)
    then have "set (c # s) = set sub \<union> set b" by (metis set_append)
    then show ?thesis by blast
  next
    assume "contains sub s"
    from Cons.IH[OF this] show ?thesis by auto
  qed
qed

lemma startswith_blank:
  assumes "CHR 0x0A \<notin> set u" and "CHR 0x0A \<notin> set w"
  shows "startswith (w @ ''\<newline>\<newline>'') (u @ CHR 0x0A # X) \<longleftrightarrow> u = w \<and> startswith ''\<newline>'' X"
  using assms
proof (induction w arbitrary: u)
  case Nil
  then show ?case by (cases u) auto
next
  case (Cons a w)
  then show ?case by (cases u) auto
qed

lemma h1_lines_heading_end:
  assumes "t \<noteq> []" and "CHR 0x0A \<notin> set t"
  shows "h1_lines (''# '' @ t) = ''<h1>'' @ t @ ''</h1>''"
proof -
  from assms(2) have "CHR 0x0A \<notin> set (''# '' @ t)" by simp
  from split_single_no[OF this] assms(1) show ?thesis
    by (simp add: h1_lines_def h_line_def)
qed

lemma h1_lines_heading:
  assumes "t \<noteq> []" and "CHR 0x0A \<notin> set t"
  shows "h1_lines (''# '' @ t @ CHR 0x0A # x) = ''<h1>'' @ t @ ''</h1>'' @ CHR 0x0A # h1_lines x"
proof -
  from assms(2) have "CHR 0x0A \<notin> set (''# '' @ t)" by simp
  from split_single_app[OF this, of x] assms(1) show ?thesis
    by (simp add: h1_lines_def h_line_def join_Cons split_nonempty)
qed

lemma h_line_first:
  assumes "l \<noteq> []" and "CHR 0x0A \<notin> set l"
  shows "\<not> startswith ''\<newline>'' (h_line ''# '' ''<h1>'' ''</h1>'' l @ s)"
  using assms by (cases l) (auto simp: h_line_def)

lemma h1_lines_first:
  assumes "\<not> startswith ''\<newline>'' x"
  shows "\<not> startswith ''\<newline>'' (h1_lines x)"
proof -
  obtain l r where x: "x = l @ r" and l: "CHR 0x0A \<notin> set l"
    and r: "r = [] \<or> (\<exists>r'. r = CHR 0x0A # r')"
    by (rule line_decomp)
  show ?thesis
  proof (cases l)
    case Nil
    with x r assms have "x = []" by auto
    then show ?thesis by (simp add: h1_lines_def split_single_no h_line_def)
  next
    case (Cons a l')
    then have ne: "l \<noteq> []" by simp
    from r show ?thesis
    proof
      assume "r = []"
      with x l have "h1_lines x = h_line ''# '' ''<h1>'' ''</h1>'' l @ []"
        by (simp add: h1_lines_def split_single_no)
      with h_line_first[OF ne l, of "[]"] show ?thesis by simp
    next
      assume "\<exists>r'. r = CHR 0x0A # r'"
      then obtain r' where "r = CHR 0x0A # r'" by blast
      with x l have "h1_lines x = h_line ''# '' ''<h1>'' ''</h1>'' l @ (CHR 0x0A # h1_lines r')"
        by (simp add: h1_lines_def split_single_app join_Cons split_nonempty)
      with h_line_first[OF ne l] show ?thesis by simp
    qed
  qed
qed

lemma meta_after_text_line:
  assumes "CHR 0x0A \<notin> set t" and "\<not> startswith ''\<newline>'' X"
  shows "replace ''</h1>\<newline>\<newline>'' new (''<h1>'' @ t @ ''</h1>'' @ CHR 0x0A # X)
         = ''<h1>'' @ t @ ''</h1>'' @ CHR 0x0A # replace ''</h1>\<newline>\<newline>'' new X"
proof -
  let ?a = "''<h1>'' @ t @ ''</h1>''"
  have "replace ''</h1>\<newline>\<newline>'' new (?a @ CHR 0x0A # X) = ?a @ replace ''</h1>\<newline>\<newline>'' new (CHR 0x0A # X)"
  proof (rule replace_skip)
    fix k assume "k < length ?a"
    have "CHR 0x0A \<notin> set ?a" using assms(1) by simp
    then have "CHR 0x0A \<notin> set (drop k ?a)" by (meson in_set_dropD)
    from startswith_blank[OF this, of "''</h1>''" X] assms(2)
    show "\<not> startswith ''</h1>\<newline>\<newline>'' (drop k ?a @ CHR 0x0A # X)" by simp
  qed simp
  then show ?thesis by (simp add: replace_miss)
qed

lemma meta_after_blank_line:
  assumes "CHR 0x0A \<notin> set t"
  shows "replace ''</h1>\<newline>\<newline>'' new (''<h1>'' @ t @ ''</h1>\<newline>\<newline>'' @ Y)
         = ''<h1>'' @ t @ new @ replace ''</h1>\<newline>\<newline>'' new Y"
proof -
  let ?a = "''<h1>'' @ t"
  have "replace ''</h1>\<newline>\<newline>'' new (?a @ ''</h1>\<newline>\<newline>'' @ Y)
        = ?a @ replace ''</h1>\<newline>\<newline>'' new (''</h1>\<newline>\<newline>'' @ Y)"
  proof (rule replace_skip)
    fix k assume k: "k < length ?a"
    have "CHR 0x0A \<notin> set ?a" using assms(1) by simp
    then have "CHR 0x0A \<notin> set (drop k ?a)" by (meson in_set_dropD)
    then have n: "CHR 0x0A \<notin> set (drop k ?a @ ''</h1>'')" by simp
    from k have "length (drop k ?a @ ''</h1>'') \<noteq> length ''</h1>''" by simp
    then have "drop k ?a @ ''</h1>'' \<noteq> ''</h1>''" by metis
    with startswith_blank[OF n, of "''</h1>''" "CHR 0x0A # Y"]
    show "\<not> startswith ''</h1>\<newline>\<newline>'' (drop k ?a @ ''</h1>\<newline>\<newline>'' @ Y)" by simp
  qed simp
  also have "replace ''</h1>\<newline>\<newline>'' new (''</h1>\<newline>\<newline>'' @ Y) = new @ replace ''</h1>\<newline>\<newline>'' new Y"
    by (rule replace_hit) simp
  finally show ?thesis by simp
qed

section \<open>Passes that find no match\<close>

lemma title_meta_end:
  assumes "t \<noteq> []" and "CHR 0x0A \<notin> set t"
  shows "and_then (title_pass (''# '' @ t)) meta_pass = Inr (''<h1>'' @ t @ ''</h1>'')"
proof -
  have "\<not> contains ''</h1>\<newline>\<newline>'' (''<h1>'' @ t @ ''</h1>'')"
  proof
    assume "contains ''</h1>\<newline>\<newline>'' (''<h1>'' @ t @ ''</h1>'')"
    from contains_set[OF this] assms(2) show False by simp
  qed
  then have "replace ''</h1>\<newline>\<newline>'' meta_block (''<h1>'' @ t @ ''</h1>'') = ''<h1>'' @ t @ ''</h1>''"
    by (intro replace_none) simp_all
  with h1_lines_heading_end[OF assms] show ?thesis
    by (simp add: title_pass_lines h1_lines_def[symmetric] meta_pass_def)
qed

lemma title_meta_text_line:
  assumes "t \<noteq> []" and "CHR 0x0A \<notin> set t" and "\<not> startswith ''\<newline>'' x"
  shows "\<exists>rest. and_then (title_pass x) meta_pass = Inr rest
           \<and> and_then (title_pass (''# '' @ t @ ''\<newline>'' @ x)) meta_pass
             = Inr (''<h1>'' @ t @ ''</h1>\<newline>'' @ rest)"
proof -
  from meta_after_text_line[OF assms(2) h1_lines_first[OF assms(3)], of meta_block]
    h1_lines_heading[OF assms(1,2), of x]
  show ?thesis
    by (simp add: title_pass_lines h1_lines_def[symmetric] meta_pass_def)
qed

lemma h1_lines_blank: "h1_lines (CHR 0x0A # y) = CHR 0x0A # h1_lines y"
  using split_single_app[of "CHR 0x0A" "[]" y]
  by (simp add: h1_lines_def join_Cons split_nonempty h_line_def)

lemma title_meta_blank_line:
  assumes "t \<noteq> []" and "CHR 0x0A \<notin> set t"
  shows "\<exists>rest. and_then (title_pass y) meta_pass = Inr rest
           \<and> and_then (title_pass (''# '' @ t @ ''\<newline>\<newline>'' @ y)) meta_pass
             = Inr (''<h1>'' @ t @ meta_block @ rest)"
proof -
  from meta_after_blank_line[OF assms(2), of meta_block "h1_lines y"]
    h1_lines_heading[OF assms(1,2), of "CHR 0x0A # y"]
  show ?thesis
    by (simp add: title_pass_lines h1_lines_def[symmetric] meta_pass_def h1_lines_blank)
qed

lemma meta_pass_id: "\<not> contains ''</h1>\<newline>\<newline>'' s \<Longrightarrow> meta_pass s = Inr s"
  by (simp add: meta_pass_def replace_none)

lemma rmatch_suffix:
  "st' \<in> set (rmatch r st) \<Longrightarrow> \<exists>u. fst (snd st) = u @ fst (snd st')"
proof (induction r st arbitrary: st' rule: rmatch.induct)
  case (1 c p g) then show ?case by simp
next
  case (2 c p x xs g) then show ?case by (auto split: if_splits)
next
  case (3 P p g) then show ?case by simp
next
  case (4 P p x xs g) then show ?case by (auto split: if_splits)
next
  case (5 p s g) then show ?case by (auto split: if_splits)
next
  case (6 p s g) then show ?case by (auto split: if_splits)
next
  case (7 p s g) then show ?case by (auto split: if_splits list.splits)
next
  case (8 st) then show ?case by simp
next
  case (9 r1 r2 st)
  from rmatch_Seq_elem[OF 9(3)] obtain st1 where a: "st1 \<in> set (rmatch r1 st)"
    and b: "st' \<in> set (rmatch r2 st1)" by blast
  from 9(1)[OF a] 9(2)[OF a b] show ?case by auto
next
  case (10 r1 r2 st)
  from 10(3) have "st' \<in> set (rmatch r1 st) \<or> st' \<in> set (rmatch r2 st)" by simp
  with 10(1,2) show ?case by blast
next
  case (11 r p s g)
  from rmatch_Star_elem[OF 11(3)] show ?case
  proof
    assume "st' = (p, s, g)" then show ?thesis by simp
  next
    assume "\<exists>st1 \<in> set (rmatch r (p, s, g)). length (fst (snd st1)) < length s \<and> st' \<in> set (rmatch (Star r) st1)"
    then obtain p1 s1 g1 where m: "(p1, s1, g1) \<in> set (rmatch r (p, s, g))" "length s1 < length s"
      "st' \<in> set (rmatch (Star r) (p1, s1, g1))" by fastforce
    from 11(2)[OF m(1) refl refl m(2) m(3)] 11(1)[OF m(1)] show ?thesis by auto
  qed
next
  case (12 r p s g)
  from rmatch_Lazy_elem[OF 12(3)] show ?case
  proof
    assume "st' = (p, s, g)" then show ?thesis by simp
  next
    assume "\<exists>st1 \<in> set (rmatch r (p, s, g)). length (fst (snd st1)) < length s \<and> st' \<in> set (rmatch (Lazy r) st1)"
    then obtain p1 s1 g1 where m: "(p1, s1, g1) \<in> set (rmatch r (p, s, g))" "length s1 < length s"
      "st' \<in> set (rmatch (Lazy r) (p1, s1, g1))" by fastforce
    from 12(2)[OF m(1) refl refl m(2) m(3)] 12(1)[OF m(1)] show ?thesis by auto
  qed
next
  case (13 k r p s g)
  from rmatch_Grp_elem[OF 13(2)] obtain p1 s1 g1 where a: "(p1, s1, g1) \<in> set (rmatch r (p, s, g))"
    and b: "st' = (p1, s1, (k, take (length s - length s1) s) # g1)"
    by blast
  from 13(1)[OF a] b show ?case by simp
qed

lemma rmatch_suffixE:
  assumes "(p', s', g') \<in> set (rmatch r (p, s, g))"
  obtains u where "s = u @ s'"
  using rmatch_suffix[OF assms] by auto

lemma scan_no_match:
  "(\<And>a t. s = a @ t \<Longrightarrow> rmatch r (lastp p a, t, []) = []) \<Longrightarrow> scan r False p s = map C s"
proof (induction s arbitrary: p)
  case Nil
  from Nil[of "[]" "[]"] show ?case by (simp add: scan_end lastp_def)
next
  case (Cons c s)
  from Cons.prems[of "[]" "c # s"] have "rmatch r (p, c # s, []) = []" by (simp add: lastp_def)
  then have "scan r False p (c # s) = C c # scan r False (Some c) s" by (rule scan_miss)
  moreover have "scan r False (Some c) s = map C s"
  proof (rule Cons.IH)
    fix a t assume "s = a @ t"
    then have "c # s = (c # a) @ t" by simp
    from Cons.prems[OF this] show "rmatch r (lastp (Some c) a, t, []) = []"
      by (cases a) (simp_all add: lastp_def)
  qed
  ultimately show ?case by simp
qed

lemma re_sub_no_match:
  "(\<And>a t. s = a @ t \<Longrightarrow> rmatch r (lastp None a, t, []) = []) \<Longrightarrow> re_sub r f s = Inr s"
  by (simp add: re_sub_def scan_no_match)

lemma contains_iff: "contains sub s \<longleftrightarrow> (\<exists>a b. s = a @ sub @ b)"
proof (induction s)
  case Nil
  then show ?case by auto
next
  case (Cons c s)
  show ?case
  proof
    assume "contains sub (c # s)"
    then have "startswith sub (c # s) \<or> contains sub s" by simp
    then show "\<exists>a b. c # s = a @ sub @ b"
    proof
      assume "startswith sub (c # s)"
      then obtain b where "c # s = sub @ b" by (auto simp: startswith_iff)
      then have "c # s = [] @ sub @ b" by simp
      then show ?thesis by blast
    next
      assume "contains sub s"
      with Cons obtain a b where "s = a @ sub @ b" by blast
      then have "c # s = (c # a) @ sub @ b" by simp
      then show ?thesis by blast
    qed
  next
    assume "\<exists>a b. c # s = a @ sub @ b"
    then obtain a b where ab: "c # s = a @ sub @ b" by blast
    show "contains sub (c # s)"
    proof (cases a)
      case Nil
      with ab have "startswith sub (c # s)" by (auto simp: startswith_iff)
      then show ?thesis by simp
    next
      case (Cons x a')
      with ab have "s = a' @ sub @ b" by simp
      with Cons.IH have "contains sub s" by blast
      then show ?thesis by simp
    qed
  qed
qed

lemma contains_appendI1: "contains sub a \<Longrightarrow> contains sub (a @ b)"
  by (auto simp: contains_iff) (metis append.assoc)

lemma contains_appendI2: "contains sub b \<Longrightarrow> contains sub (a @ b)"
  by (auto simp: contains_iff) (metis append.assoc)

lemma musthave_no_match:
  assumes "musthave lit r" and "\<not> contains lit s" and "s = a @ t"
  shows "rmatch r (q, t, g) = []"
proof (rule ccontr)
  assume "rmatch r (q, t, g) \<noteq> []"
  then obtain st where "st \<in> set (rmatch r (q, t, g))"
    by (meson last_in_set)
  then obtain p' s' g' where m: "(p', s', g') \<in> set (rmatch r (q, t, g))"
    by (metis prod_cases3)
  then obtain u where u: "t = u @ s'" by (rule rmatch_suffixE)
  with assms(1) m have "contains lit u" unfolding musthave_def by blast
  then have "contains lit (a @ u @ s')" by (intro contains_appendI2 contains_appendI1)
  with assms(2,3) u show False by simp
qed

lemma re_sub_musthave:
  assumes "musthave lit r" and "\<not> contains lit s"
  shows "re_sub r f s = Inr s"
  by (rule re_sub_no_match) (rule musthave_no_match[OF assms])

lemma musthave_Seq1: "musthave lit a \<Longrightarrow> musthave lit (Seq a b)"
  unfolding musthave_def
proof (intro allI impI)
  fix p s g p' s' g' u
  assume a: "\<forall>p s g p' s' g' u. (p', s', g') \<in> set (rmatch a (p, s, g)) \<longrightarrow> s = u @ s' \<longrightarrow> contains lit u"
    and m: "(p', s', g') \<in> set (rmatch (Seq a b) (p, s, g))" and s: "s = u @ s'"
  from rmatch_Seq_elem[OF m] obtain p1 s1 g1 where
    m1: "(p1, s1, g1) \<in> set (rmatch a (p, s, g))" and m2: "(p', s', g') \<in> set (rmatch b (p1, s1, g1))"
    by (metis prod_cases3)
  from m1 obtain u1 where u1: "s = u1 @ s1" by (rule rmatch_suffixE)
  from m2 obtain u2 where u2: "s1 = u2 @ s'" by (rule rmatch_suffixE)
  from a m1 u1 have "contains lit u1" by blast
  moreover from s u1 u2 have "u = u1 @ u2" by simp
  ultimately show "contains lit u" by (simp add: contains_appendI1)
qed

lemma musthave_Seq2: "musthave lit b \<Longrightarrow> musthave lit (Seq a b)"
  unfolding musthave_def
proof (intro allI impI)
  fix p s g p' s' g' u
  assume a: "\<forall>p s g p' s' g' u. (p', s', g') \<in> set (rmatch b (p, s, g)) \<longrightarrow> s = u @ s' \<longrightarrow> contains lit u"
    and m: "(p', s', g') \<in> set (rmatch (Seq a b) (p, s, g))" and s: "s = u @ s'"
  from rmatch_Seq_elem[OF m] obtain p1 s1 g1 where
    m1: "(p1, s1, g1) \<in> set (rmatch a (p, s, g))" and m2: "(p', s', g') \<in> set (rmatch b (p1, s1, g1))"
    by (metis prod_cases3)
  from m1 obtain u1 where u1: "s = u1 @ s1" by (rule rmatch_suffixE)
  from m2 obtain u2 where u2: "s1 = u2 @ s'" by (rule rmatch_suffixE)
  from a m2 u2 have "contains lit u2" by blast
  moreover from s u1 u2 have "u = u1 @ u2" by simp
  ultimately show "contains lit u" by (simp add: contains_appendI2)
qed

lemma contains_refl: "contains s s"
  by (cases s) (auto simp: startswith_iff)

lemma musthave_Str: "musthave lit (Str lit)"
  unfolding musthave_def
proof (intro allI impI)
  fix p s g p' s' g' u
  assume m: "(p', s', g') \<in> set (rmatch (Str lit) (p, s, g))" and s: "s = u @ s'"
  from m have "startswith lit s" and "s' = drop (length lit) s"
    by (auto simp: rmatch_Str split: if_splits)
  then have "s = lit @ s'" by (auto simp: startswith_iff)
  with s have "u = lit" by simp
  then show "contains lit u" by (simp add: contains_refl)
qed

lemma musthave_Chr: "musthave [c] (Chr c)"
  using musthave_Str[of "[c]"] unfolding musthave_def by simp

lemma musthave_Grp: "musthave lit r \<Longrightarrow> musthave lit (Grp n r)"
  unfolding musthave_def by (metis rmatch_Grp_elem prod.inject)

lemma musthave_Plus: "musthave lit r \<Longrightarrow> musthave lit (Plus r)"
  unfolding Plus_def by (rule musthave_Seq1)

lemma tails_after_nl_mem: "a \<noteq> [] \<Longrightarrow> last a = CHR 0x0A \<Longrightarrow> t \<in> set (tails_after_nl (a @ t))"
proof (induction a)
  case Nil
  then show ?case by simp
next
  case (Cons c a)
  then show ?case by (cases a) auto
qed

lemma re_sub_no_trigger:
  assumes nobol: "\<And>p s. \<not> bol p \<Longrightarrow> rmatch r (p, s, []) = []"
    and trig: "\<And>p s. \<not> trig s \<Longrightarrow> rmatch r (p, s, []) = []"
    and free: "\<forall>t \<in> set (line_suffixes s). \<not> trig t"
  shows "re_sub r f s = Inr s"
proof (rule re_sub_no_match)
  fix a t assume s: "s = a @ t"
  show "rmatch r (lastp None a, t, []) = []"
  proof (cases "bol (lastp None a)")
    case False
    then show ?thesis by (rule nobol)
  next
    case True
    have "t \<in> set (line_suffixes s)"
    proof (cases a)
      case Nil
      with s show ?thesis by (simp add: line_suffixes_def)
    next
      case (Cons c a')
      with True have "last a = CHR 0x0A" by (simp add: bol_def lastp_def)
      with Cons s tails_after_nl_mem[of a t] show ?thesis by (simp add: line_suffixes_def)
    qed
    with free have "\<not> trig t" by blast
    then show ?thesis by (rule trig)
  qed
qed

lemma Star_Cls_cont:
  assumes fail: "\<And>p s g. s = [] \<or> P (hd s) \<Longrightarrow> rmatch K (p, s, g) = []"
    and rest: "\<And>p. rmatch K (p, dropWhile P s, g) = []"
  shows "rmatch (Seq (Star (Cls P)) K) (p, s, g) = []"
  using rest
proof (induction s arbitrary: p)
  case Nil
  then show ?case by (simp add: fail)
next
  case (Cons c s)
  show ?case
  proof (cases "P c")
    case True
    with Cons.prems have "\<And>p. rmatch K (p, dropWhile P s, g) = []" by simp
    from Cons.IH[OF this] have "rmatch (Seq (Star (Cls P)) K) (Some c, s, g) = []" .
    with True show ?thesis by (simp add: fail)
  next
    case False
    with Cons.prems[of p] show ?thesis by simp
  qed
qed

lemma concat_map_concat:
  "concat (map f (concat (map g xs))) = concat (map (\<lambda>x. concat (map f (g x))) xs)"
  by (induction xs) simp_all

lemma rmatch_Seq_assoc: "rmatch (Seq (Seq a b) c) st = rmatch (Seq a (Seq b c)) st"
proof -
  have "rmatch (Seq b c) = (\<lambda>x. concat (map (rmatch c) (rmatch b x)))"
    by (rule ext) simp
  then show ?thesis by (simp add: concat_map_concat)
qed

lemma rmatch_Plus_Nil: "rmatch r st = [] \<Longrightarrow> rmatch (Plus r) st = []"
  by (simp add: Plus_def)

lemma rmatch_Grp_Nil: "rmatch r st = [] \<Longrightarrow> rmatch (Grp n r) st = []"
  by (cases st) simp

lemma rmatch_Bol_Nil: "rmatch r st = [] \<Longrightarrow> rmatch (Seq Bol r) st = []"
  by (cases st) simp

lemma rmatch_Plus_Cls_Seq:
  "rmatch (Seq (Plus (Cls P)) K) st = rmatch (Seq (Cls P) (Seq (Star (Cls P)) K)) st"
  unfolding Plus_def by (rule rmatch_Seq_assoc)

lemma list_nobol: "\<not> bol p \<Longrightarrow> rmatch list_re (p, s, []) = []"
  unfolding list_re_def Seqs_Cons
  by (intro rmatch_Plus_Nil rmatch_Grp_Nil rmatch_Bol_not)

lemma ol_nobol: "\<not> bol p \<Longrightarrow> rmatch ol_re (p, s, []) = []"
  unfolding ol_re_def Seqs_Cons
  by (intro rmatch_Plus_Nil rmatch_Grp_Nil rmatch_Bol_not)

lemma is_space_not_marker: "is_space c \<Longrightarrow> \<not> one_of ''-*'' c"
  by (auto simp: is_space_def one_of_def)

lemma is_space_not_digit: "is_space c \<Longrightarrow> \<not> is_digit c"
  by (auto simp: is_space_def is_digit_def Let_def)

lemma rmatch_Cls_Seq_Nil: "s = [] \<or> \<not> P (hd s) \<Longrightarrow> rmatch (Seq (Cls P) K) (p, s, g) = []"
  by (cases s) auto

lemma rmatch_Chr_Seq_Nil: "s = [] \<or> hd s \<noteq> c \<Longrightarrow> rmatch (Seq (Chr c) K) (p, s, g) = []"
  by (cases s) auto

lemma list_trig:
  assumes "\<not> list_trigger s"
  shows "rmatch list_re (p, s, []) = []"
  unfolding list_re_def Seqs_Cons
proof (intro rmatch_Plus_Nil rmatch_Grp_Nil rmatch_Bol_Nil Star_Cls_cont)
  fix p :: "char option" and s :: string and g :: groups and K
  assume "s = [] \<or> is_space (hd s)"
  then show "rmatch (Seq (Cls (one_of ''-*'')) K) (p, s, g) = []"
    by (intro rmatch_Cls_Seq_Nil) (auto dest: is_space_not_marker)
next
  fix p :: "char option" and K
  from assms show "rmatch (Seq (Cls (one_of ''-*'')) K) (p, dropWhile is_space s, []) = []"
    by (intro rmatch_Cls_Seq_Nil) (auto simp: list_trigger_def split: list.splits)
qed

lemma digits_then_dot:
  assumes "\<not> startswith ''.'' (dropWhile is_digit u)"
  shows "rmatch (Seq (Star (Cls is_digit)) (Seq (Chr CHR ''.'') Y)) (p, u, g) = []"
proof (rule Star_Cls_cont)
  fix p :: "char option" and s :: string and g :: groups
  assume "s = [] \<or> is_digit (hd s)"
  then show "rmatch (Seq (Chr CHR ''.'') Y) (p, s, g) = []"
    by (intro rmatch_Chr_Seq_Nil) (auto simp: is_digit_def)
next
  fix p
  from assms show "rmatch (Seq (Chr CHR ''.'') Y) (p, dropWhile is_digit u, g) = []"
    by (intro rmatch_Chr_Seq_Nil) (cases "dropWhile is_digit u"; auto)
qed

lemma ol_trig:
  assumes "\<not> ol_trigger s"
  shows "rmatch ol_re (p, s, []) = []"
  unfolding ol_re_def Seqs_Cons rmatch_Plus_Cls_Seq
proof (intro rmatch_Plus_Nil rmatch_Grp_Nil rmatch_Bol_Nil Star_Cls_cont)
  fix p :: "char option" and s :: string and g :: groups and K
  assume "s = [] \<or> is_space (hd s)"
  then show "rmatch (Seq (Plus (Cls is_digit)) K) (p, s, g) = []"
    unfolding rmatch_Plus_Cls_Seq
    by (intro rmatch_Cls_Seq_Nil) (auto dest: is_space_not_digit)
next
  fix p :: "char option" and Y
  define u0 where "u0 = dropWhile is_space s"
  have "rmatch (Seq (Cls is_digit) (Seq (Star (Cls is_digit)) (Seq (Chr CHR ''.'') Y))) (p, u0, []) = []"
  proof (cases u0)
    case Nil
    then show ?thesis by simp
  next
    case (Cons c u)
    show ?thesis
    proof (cases "is_digit c")
      case False
      with Cons show ?thesis by simp
    next
      case True
      with assms Cons have "\<not> startswith ''.'' (dropWhile is_digit u)"
        by (simp add: ol_trigger_def u0_def[symmetric])
      from digits_then_dot[OF this, of Y "Some c" "[]"] Cons True show ?thesis by simp
    qed
  qed
  then show "rmatch (Seq (Plus (Cls is_digit)) (Seq (Chr CHR ''.'') Y)) (p, dropWhile is_space s, []) = []"
    unfolding rmatch_Plus_Cls_Seq u0_def .
qed

lemma list_pass_id: "\<forall>t \<in> set (line_suffixes s). \<not> list_trigger t \<Longrightarrow> list_pass s = Inr s"
  unfolding list_pass_def
  by (rule re_sub_no_trigger[where trig = list_trigger]) (simp_all add: list_nobol list_trig)

lemma ol_pass_id: "\<forall>t \<in> set (line_suffixes s). \<not> ol_trigger t \<Longrightarrow> ol_pass s = Inr s"
  unfolding ol_pass_def
  by (rule re_sub_no_trigger[where trig = ol_trigger]) (simp_all add: ol_nobol ol_trig)

lemma musthave_heading: "musthave mk (heading_re mk)"
  unfolding heading_re_def Seqs_Cons by (intro musthave_Seq2 musthave_Seq1 musthave_Str)

lemma musthave_hr: "musthave ''--'' hr_re"
  unfolding hr_re_def Seqs_Cons by (intro musthave_Seq2 musthave_Seq1 musthave_Str)

lemma musthave_code_block: "musthave ''```'' code_block_re"
  unfolding code_block_re_def Seqs_Cons by (intro musthave_Seq1 musthave_Str)

lemma musthave_mermaid: "musthave ''```mermaid\<newline>'' mermaid_re"
  unfolding mermaid_re_def Seqs_Cons by (intro musthave_Seq1 musthave_Str)

lemma musthave_inline_code: "musthave ''`'' inline_code_re"
  unfolding inline_code_re_def Seqs_Cons by (intro musthave_Seq1 musthave_Chr)

lemma musthave_bold: "musthave ''**'' bold_re"
  unfolding bold_re_def Seqs_Cons by (intro musthave_Seq1 musthave_Str)

lemma musthave_italic: "musthave ''*'' italic_re"
  unfolding italic_re_def Seqs_Cons by (intro musthave_Seq1 musthave_Chr)

lemma musthave_image: "musthave ''!['' image_re"
  unfolding image_re_def Seqs_Cons by (intro musthave_Seq1 musthave_Str)

lemma musthave_table: "musthave ''|'' table_re"
  unfolding table_re_def Seqs_Cons by (intro musthave_Plus musthave_Grp musthave_Seq1 musthave_Chr)

lemma musthave_empty_p: "musthave ''<p>'' empty_p_re"
  unfolding empty_p_re_def Seqs_Cons by (intro musthave_Seq1 musthave_Str)

lemma musthave_p_before: "musthave ''<p>'' p_before_block_re"
  unfolding p_before_block_re_def Seqs_Cons by (intro musthave_Seq1 musthave_Str)

lemma musthave_p_after: "musthave ''</p>'' p_after_block_re"
  unfolding p_after_block_re_def Seqs_Cons
  by (rule musthave_Seq2, rule musthave_Seq2, rule musthave_Seq1, rule musthave_Str)

lemma h2_pass_id: "\<not> contains ''## '' s \<Longrightarrow> h2_pass s = Inr s"
  unfolding h2_pass_def by (rule re_sub_musthave[OF musthave_heading])

lemma h3_pass_id: "\<not> contains ''### '' s \<Longrightarrow> h3_pass s = Inr s"
  unfolding h3_pass_def by (rule re_sub_musthave[OF musthave_heading])

lemma hr_pass_id: "\<not> contains ''--'' s \<Longrightarrow> hr_pass s = Inr s"
  unfolding hr_pass_def by (rule re_sub_musthave[OF musthave_hr])

lemma code_block_pass_id: "\<not> contains ''```'' s \<Longrightarrow> code_block_pass s = Inr s"
  unfolding code_block_pass_def by (rule re_sub_musthave[OF musthave_code_block])

lemma inline_code_pass_id: "\<not> contains ''`'' s \<Longrightarrow> inline_code_pass s = Inr s"
  unfolding inline_code_pass_def by (rule re_sub_musthave[OF musthave_inline_code])

lemma bold_pass_id: "\<not> contains ''**'' s \<Longrightarrow> bold_pass s = Inr s"
  unfolding bold_pass_def by (rule re_sub_musthave[OF musthave_bold])

lemma italic_pass_id: "\<not> contains ''*'' s \<Longrightarrow> italic_pass s = Inr s"
  unfolding italic_pass_def by (rule re_sub_musthave[OF musthave_italic])

lemma image_pass_id: "\<not> contains ''!['' s \<Longrightarrow> image_pass s = Inr s"
  unfolding image_pass_def by (rule re_sub_musthave[OF musthave_image])

lemma table_pass_id: "\<not> contains ''|'' s \<Longrightarrow> table_pass s = Inr s"
  unfolding table_pass_def by (rule re_sub_musthave[OF musthave_table])

lemma contains_drop_prefix: "contains (x @ y) s \<Longrightarrow> contains y s"
  by (auto simp: contains_iff) (metis append.assoc)

lemma cleanup_pass_id:
  assumes "\<not> contains ''<p>'' s" and "\<not> contains ''</p>'' s"
  shows "cleanup_pass s = Inr s"
proof -
  have "\<not> contains ''\<newline></p>'' s"
    using assms(2) contains_drop_prefix[of "''\<newline>''" "''</p>''" s] by auto
  then have "replace ''\<newline></p>'' ''</p>'' s = s" by (intro replace_none) simp_all
  moreover have "re_sub empty_p_re (expand []) s = Inr s"
    by (rule re_sub_musthave[OF musthave_empty_p assms(1)])
  moreover have "re_sub p_before_block_re (expand [G 1]) s = Inr s"
    by (rule re_sub_musthave[OF musthave_p_before assms(1)])
  moreover have "re_sub p_after_block_re (expand [G 1]) s = Inr s"
    by (rule re_sub_musthave[OF musthave_p_after assms(2)])
  ultimately show ?thesis by (simp add: cleanup_pass_def)
qed

lemma split_none: "sep \<noteq> [] \<Longrightarrow> \<not> contains sep s \<Longrightarrow> split sep s = [s]"
proof (induction s)
  case Nil
  then show ?case by (subst split.simps) (cases sep; simp)
next
  case (Cons c s)
  then show ?case by (subst split.simps) simp
qed

lemma paragraph_pass_single:
  "\<not> contains ''\<newline>\<newline>'' s \<Longrightarrow> paragraph_pass s = wrap_paragraph s"
  by (simp add: paragraph_pass_def split_none)

lemma inert_passes:
  assumes "inert s"
  shows "foldl and_then (Inr s) (drop 2 passes) = Inr s"
proof -
  from assms have c: "\<not> contains ''## '' s" "\<not> contains ''--'' s" "\<not> contains ''`'' s"
    "\<not> contains ''*'' s" "\<not> contains ''!['' s" "\<not> contains ''|'' s"
    "\<not> contains ''\<newline>\<newline>'' s" "wrap_paragraph s = s"
    "\<not> contains ''<p>'' s" "\<not> contains ''</p>'' s"
    and l: "\<forall>t \<in> set (line_suffixes s). \<not> list_trigger t"
    and o: "\<forall>t \<in> set (line_suffixes s). \<not> ol_trigger t"
    by (simp_all add: inert_def list_all_iff)
  from c(1) have c3: "\<not> contains ''### '' s"
    using contains_drop_prefix[of "''#''" "''## ''" s] by auto
  from c(3) have c4: "\<not> contains ''```'' s"
    using contains_drop_prefix[of "''``''" "''`''" s] by auto
  from c(4) have c5: "\<not> contains ''**'' s"
    using contains_drop_prefix[of "''*''" "''*''" s] by auto
  show ?thesis
    by (simp add: passes_def h2_pass_id[OF c(1)] h3_pass_id[OF c3] hr_pass_id[OF c(2)]
        code_block_pass_id[OF c4] inline_code_pass_id[OF c(3)] bold_pass_id[OF c5]
        italic_pass_id[OF c(4)] image_pass_id[OF c(5)] table_pass_id[OF c(6)]
        list_pass_id[OF l] ol_pass_id[OF o] paragraph_pass_single[OF c(7)] c(8)
        cleanup_pass_id[OF c(9) c(10)])
qed

lemma md_to_html_inert:
  assumes "and_then (title_pass doc) meta_pass = Inr s" and "inert s"
  shows "md_to_html doc = Inr s"
proof -
  have "md_to_html doc = foldl and_then (and_then (title_pass doc) meta_pass) (drop 2 passes)"
    by (simp add: md_to_html_def passes_def)
  with assms(1) inert_passes[OF assms(2)] show ?thesis by simp
qed

lemma title_example:
  "md_to_html ''# Title\<newline>\<newline>text'' = Inr (''<h1>Title'' @ meta_block @ ''text'')"
proof (rule md_to_html_inert)
  show "and_then (title_pass ''# Title\<newline>\<newline>text'') meta_pass = Inr (''<h1>Title'' @ meta_block @ ''text'')"
    by code_simp
  show "inert (''<h1>Title'' @ meta_block @ ''text'')"
    by code_simp
qed

section \<open>The table pass\<close>

lemma table_lineE:
  assumes "table_line r"
  obtains mid where "r = CHR ''|'' # mid @ ''|''" "mid \<noteq> []" "CHR 0x0A \<notin> set mid"
proof -
  from assms have len: "3 \<le> length r" and h: "hd r = CHR ''|''" and l: "last r = CHR ''|''"
    and n: "CHR 0x0A \<notin> set r" by (auto simp: table_line_def)
  from len obtain c r' where r: "r = c # r'" by (cases r) auto
  with len have "r' \<noteq> []" by auto
  then have r': "r' = butlast r' @ [last r']" by simp
  from r h have c: "c = CHR ''|''" by simp
  from r l \<open>r' \<noteq> []\<close> have "last r' = CHR ''|''" by simp
  with r' have "r' = butlast r' @ ''|''" by simp
  with r c have 1: "r = CHR ''|'' # butlast r' @ ''|''" by simp
  from len r have "butlast r' \<noteq> []" by (cases r'; cases "tl r'") auto
  moreover from n 1 have "CHR 0x0A \<notin> set (butlast r')" by (metis UnCI list.set_intros(2) set_append)
  ultimately show ?thesis using 1 that by blast
qed

lemma rmatch_Star_Cls_Seq_Cons:
  "rmatch (Seq (Star (Cls P)) K) (p, c # cs, g) =
     (if P c then rmatch (Seq (Star (Cls P)) K) (Some c, cs, g) else []) @ rmatch K (p, c # cs, g)"
  by simp

lemma rmatch_Star_Cls_Seq_Nil:
  "rmatch (Seq (Star (Cls P)) K) (p, [], g) = rmatch K (p, [], g)"
  by simp

lemma row_tail:
  assumes "CHR 0x0A \<notin> set m"
  shows "rmatch (Seq (Star (Cls dot)) (Seq (Chr CHR ''|'') (Seq (Chr CHR 0x0A) Eps)))
           (q, m @ CHR ''|'' # CHR 0x0A # rest, g) = [(Some CHR 0x0A, rest, g)]"
  using assms
proof (induction m arbitrary: q)
  case Nil
  show ?case
    by (simp only: append_Nil rmatch_Star_Cls_Seq_Cons) (simp add: dot_def)
next
  case (Cons c m)
  from Cons.prems have c: "c \<noteq> CHR 0x0A" and m: "CHR 0x0A \<notin> set m" by auto
  have k: "rmatch (Seq (Chr CHR ''|'') (Seq (Chr CHR 0x0A) Eps)) (q, c # m @ CHR ''|'' # CHR 0x0A # rest, g) = []"
    using m by (cases m) auto
  show ?case
    using Cons.IH[OF m, of "Some c"] c k
    by (simp only: append_Cons rmatch_Star_Cls_Seq_Cons) (simp add: dot_def)
qed

lemma rmatch_Grp_single:
  "rmatch r (p, u @ s', g) = [(p', s', g')] \<Longrightarrow>
   rmatch (Grp n r) (p, u @ s', g) = [(p', s', (n, u) # g')]"
  by simp

lemma row_match:
  assumes "table_line r"
  shows "rmatch row_re (p, r @ CHR 0x0A # rest, g) = [(Some CHR 0x0A, rest, (1, r @ ''\<newline>'') # g)]"
proof -
  from assms obtain mid where r: "r = CHR ''|'' # mid @ ''|''" and ne: "mid \<noteq> []"
    and n: "CHR 0x0A \<notin> set mid" by (rule table_lineE)
  from ne obtain c m where mid: "mid = c # m" by (cases mid) auto
  with n have c: "dot c" and m: "CHR 0x0A \<notin> set m" by (auto simp: dot_def)
  let ?K = "Seq (Chr CHR ''|'') (Seq (Chr CHR 0x0A) Eps)"
  have "rmatch (Seq (Plus (Cls dot)) ?K) (Some CHR ''|'', c # m @ CHR ''|'' # CHR 0x0A # rest, g)
        = rmatch (Seq (Star (Cls dot)) ?K) (Some c, m @ CHR ''|'' # CHR 0x0A # rest, g)"
    unfolding rmatch_Plus_Cls_Seq using c by simp
  also have "\<dots> = [(Some CHR 0x0A, rest, g)]" by (rule row_tail[OF m])
  finally have "rmatch (Seqs [Chr CHR ''|'', Plus (Cls dot), Chr CHR ''|'', Chr CHR 0x0A])
                  (p, CHR ''|'' # c # m @ CHR ''|'' # CHR 0x0A # rest, g) = [(Some CHR 0x0A, rest, g)]"
    by simp
  with r mid have "rmatch (Seqs [Chr CHR ''|'', Plus (Cls dot), Chr CHR ''|'', Chr CHR 0x0A])
                  (p, (r @ ''\<newline>'') @ rest, g) = [(Some CHR 0x0A, rest, g)]"
    by simp
  from rmatch_Grp_single[OF this, of 1] show ?thesis by (simp add: row_re_def)
qed

lemma table_re_rows: "table_re = Plus row_re"
  by (simp add: table_re_def row_re_def)

lemma row_re_empty: "rmatch row_re (p, [], g) = []"
  by (simp add: row_re_def)

lemma rows_text_simps [simp]:
  "rows_text [] = []" "rows_text (r # rows) = r @ CHR 0x0A # rows_text rows"
  by (simp_all add: rows_text_def)

lemma rows_star:
  "list_all table_line rows \<Longrightarrow> \<exists>p' g'. heads (rmatch (Star row_re) (p, rows_text rows, g)) (p', [], g')"
proof (induction rows arbitrary: p g)
  case Nil
  show ?case by (subst rmatch.simps(11)) (simp add: row_re_empty)
next
  case (Cons r rows)
  then have r: "table_line r" and rows: "list_all table_line rows" by simp_all
  from Cons.IH[OF rows, of "Some CHR 0x0A" "(1, r @ ''\<newline>'') # g"] obtain p' g' where
    h: "heads (rmatch (Star row_re) (Some CHR 0x0A, rows_text rows, (1, r @ ''\<newline>'') # g)) (p', [], g')"
    by blast
  have "heads (rmatch (Star row_re) (p, r @ CHR 0x0A # rows_text rows, g)) (p', [], g')"
    using h by (subst rmatch.simps(11)) (auto simp: row_match[OF r] heads_def)
  then show ?case by auto
qed

lemma table_match:
  assumes "list_all table_line (h # rows)"
  shows "\<exists>p' g'. heads (rmatch table_re (p, rows_text (h # rows), [])) (p', [], g')"
proof -
  from assms have h: "table_line h" and rows: "list_all table_line rows" by simp_all
  from rows_star[OF rows, of "Some CHR 0x0A" "[(1, h @ ''\<newline>'')]"] obtain p' g' where
    "heads (rmatch (Star row_re) (Some CHR 0x0A, rows_text rows, [(1, h @ ''\<newline>'')])) (p', [], g')"
    by blast
  then have "heads (rmatch table_re (p, h @ CHR 0x0A # rows_text rows, [])) (p', [], g')"
    by (simp add: table_re_rows Plus_def row_match[OF h])
  then show ?thesis by auto
qed

lemma table_re_empty: "rmatch table_re (p, [], g) = []"
  by (simp add: table_re_rows Plus_def row_re_empty)

lemma table_scan:
  assumes "list_all table_line (h # rows)"
  shows "\<exists>g'. scan table_re False None (rows_text (h # rows)) = [M ((0, rows_text (h # rows)) # g')]"
proof -
  from table_match[OF assms, of None] obtain p' g' rest where
    m: "rmatch table_re (None, rows_text (h # rows), []) = (p', [], g') # rest"
    by (auto simp: heads_def)
  have "length ([] :: string) < length (rows_text (h # rows))" by simp
  from scan_hit[OF m this] show ?thesis by (simp add: scan_end table_re_empty)
qed

lemma rows_text_join: "rows \<noteq> [] \<Longrightarrow> rows_text rows = join ''\<newline>'' rows @ ''\<newline>''"
proof (induction rows)
  case Nil
  then show ?case by simp
next
  case (Cons r rows)
  then show ?case by (cases rows) simp_all
qed

lemma join_hd: "rows \<noteq> [] \<Longrightarrow> hd rows \<noteq> [] \<Longrightarrow> hd (join sep rows) = hd (hd rows)"
  by (cases rows; cases "tl rows") auto

lemma join_last:
  "rows \<noteq> [] \<Longrightarrow> last rows \<noteq> [] \<Longrightarrow> join sep rows \<noteq> [] \<and> last (join sep rows) = last (last rows)"
proof (induction sep rows rule: join.induct)
  case (3 sep x y ys)
  then show ?case by simp
qed simp_all

lemma pipe_not_space: "\<not> is_space CHR ''|''"
  by (simp add: is_space_def)

lemma nl_space: "is_space CHR 0x0A"
  by (simp add: is_space_def)

lemma table_line_ends: "table_line r \<Longrightarrow> r \<noteq> [] \<and> hd r = CHR ''|'' \<and> last r = CHR ''|'' \<and> CHR 0x0A \<notin> set r"
  by (auto simp: table_line_def)

lemma strip_rows:
  assumes "list_all table_line (h # rows)"
  shows "strip (rows_text (h # rows)) = join ''\<newline>'' (h # rows)"
proof -
  let ?j = "join ''\<newline>'' (h # rows)"
  from assms have h: "h \<noteq> []" "hd h = CHR ''|''" using table_line_ends by auto
  from assms have "table_line (last (h # rows))" by (metis last_in_set list.distinct(1) list_all_iff)
  then have l: "last (h # rows) \<noteq> []" "last (last (h # rows)) = CHR ''|''"
    using table_line_ends by auto
  from join_hd[of "h # rows" "''\<newline>''"] h have hd: "hd ?j = CHR ''|''" by simp
  from join_last[of "h # rows" "''\<newline>''"] l have ne: "?j \<noteq> []" and la: "last ?j = CHR ''|''"
    by simp_all
  have t: "rows_text (h # rows) = ?j @ ''\<newline>''" by (rule rows_text_join) simp
  from ne hd have 1: "dropWhile is_space (?j @ ''\<newline>'') = ?j @ ''\<newline>''"
    by (cases ?j) (auto simp: pipe_not_space)
  from ne la have "hd (rev ?j) = CHR ''|''" by (simp add: hd_rev)
  with ne have 2: "dropWhile is_space (rev ?j) = rev ?j"
    by (cases "rev ?j") (auto simp: pipe_not_space)
  show ?thesis unfolding t strip_def 1 by (simp add: nl_space 2)
qed

lemma split_join_lines:
  "rows \<noteq> [] \<Longrightarrow> \<forall>r \<in> set rows. CHR 0x0A \<notin> set r \<Longrightarrow> split ''\<newline>'' (join ''\<newline>'' rows) = rows"
proof (induction "''\<newline>''" rows rule: join.induct)
  case 1
  then show ?case by simp
next
  case (2 x)
  then show ?case by (simp add: split_single_no)
next
  case (3 x y ys)
  then show ?case by (simp add: split_single_app)
qed

lemma table_rows_data:
  "table_rows (Suc i) rows
   = concat (map (\<lambda>r. if contains ''---'' r then [] else table_row ''td'' r) rows)"
  by (induction rows arbitrary: i) simp_all

lemma table_pass_rows:
  assumes "list_all table_line (h # rows)"
  shows "table_pass (rows_text (h # rows))
         = Inr (''<table>\<newline>'' @ (if contains ''---'' h then [] else table_row ''th'' h)
                @ concat (map (\<lambda>r. if contains ''---'' r then [] else table_row ''td'' r) rows)
                @ ''</table>'')"
proof -
  from table_scan[OF assms] obtain g' where
    sc: "scan table_re False None (rows_text (h # rows)) = [M ((0, rows_text (h # rows)) # g')]"
    by blast
  from assms have nl: "\<forall>r \<in> set (h # rows). CHR 0x0A \<notin> set r"
    using table_line_ends by (auto simp: list_all_iff)
  have lines: "split ''\<newline>'' (strip (rows_text (h # rows))) = h # rows"
    unfolding strip_rows[OF assms] by (rule split_join_lines[OF _ nl]) simp
  have "table_rows 0 (h # rows)
        = (if contains ''---'' h then [] else table_row ''th'' h)
          @ concat (map (\<lambda>r. if contains ''---'' r then [] else table_row ''td'' r) rows)"
    using table_rows_data[of 0 rows] by simp
  with lines show ?thesis
    unfolding table_pass_def re_sub_def sc by (simp add: format_table_def group_def)
qed

section \<open>The fenced blocks\<close>

lemma rmatch_fence:
  "rmatch (Str ''```'') (p, s, g) = (if at_fence s then [(Some CHR ''`'', drop 3 s, g)] else [])"
  unfolding at_fence_def by (simp only: rmatch_Str) (simp add: lastp_def eval_nat_numeral)

lemma at_fence_Nil [simp]: "\<not> at_fence []"
  by (simp add: at_fence_def)

lemma before_fence_Some:
  "before_fence t = Some b \<Longrightarrow> \<exists>r. t = b @ ''```'' @ r"
proof (induction t arbitrary: b)
  case Nil
  then show ?case by simp
next
  case (Cons c t)
  show ?case
  proof (cases "at_fence (c # t)")
    case True
    with Cons.prems have "b = []" by simp
    with True show ?thesis by (auto simp: startswith_iff at_fence_def)
  next
    case False
    with Cons.prems obtain b' where b': "before_fence t = Some b'" "b = c # b'"
      by (auto split: option.splits)
    from Cons.IH[OF b'(1)] b'(2) show ?thesis by auto
  qed
qed

lemma rmatch_Lazy_any_Seq_Cons:
  "rmatch (Seq (Lazy (Cls any_char)) K) (p, c # cs, g)
   = rmatch K (p, c # cs, g) @ rmatch (Seq (Lazy (Cls any_char)) K) (Some c, cs, g)"
  by (subst rmatch.simps(9), subst rmatch.simps(12)) (simp add: any_char_def)

lemma rmatch_Lazy_any_Seq_Nil:
  "rmatch (Seq (Lazy (Cls any_char)) K) (p, [], g) = rmatch K (p, [], g)"
  by (subst rmatch.simps(9), subst rmatch.simps(12)) simp

lemma lazy_fence_none:
  "before_fence t = None \<Longrightarrow> rmatch (Seq (Lazy (Cls any_char)) (Str ''```'')) (p, t, g) = []"
proof (induction t arbitrary: p)
  case Nil
  then show ?case by (simp only: rmatch_Lazy_any_Seq_Nil rmatch_fence) simp
next
  case (Cons c t)
  from Cons.prems have n: "\<not> at_fence (c # t)" and b: "before_fence t = None"
    by (auto split: if_splits option.splits)
  from Cons.IH[OF b] n show ?case
    by (simp only: rmatch_Lazy_any_Seq_Cons rmatch_fence) simp
qed

lemma lazy_fence_some:
  "before_fence t = Some b \<Longrightarrow>
   heads (rmatch (Seq (Lazy (Cls any_char)) (Str ''```'')) (p, t, g))
         (Some CHR ''`'', drop (length b + 3) t, g)"
proof (induction t arbitrary: p b)
  case Nil
  then show ?case by simp
next
  case (Cons c t)
  show ?case
  proof (cases "at_fence (c # t)")
    case True
    with Cons.prems have "b = []" by simp
    with True show ?thesis
      by (simp only: rmatch_Lazy_any_Seq_Cons rmatch_fence) simp
  next
    case False
    with Cons.prems obtain b' where b': "before_fence t = Some b'" "b = c # b'"
      by (auto split: option.splits)
    have eq: "rmatch (Seq (Lazy (Cls any_char)) (Str ''```'')) (p, c # t, g)
              = rmatch (Seq (Lazy (Cls any_char)) (Str ''```'')) (Some c, t, g)"
      using False by (simp only: rmatch_Lazy_any_Seq_Cons rmatch_fence if_False append_Nil)
    have "length b + 3 = Suc (length b' + 3)" using b'(2) by simp
    then have d: "drop (length b + 3) (c # t) = drop (length b' + 3) t"
      by (simp only: drop_Suc_Cons)
    from Cons.IH[OF b'(1), of "Some c"] show ?thesis
      unfolding eq d .
  qed
qed

lemma block_at_length: "block_at s = Some b \<Longrightarrow> length b + 14 \<le> length s"
proof -
  assume a: "block_at s = Some b"
  then have m: "at_mermaid s" and f: "before_fence (drop 11 s) = Some b"
    by (auto simp: block_at_def split: if_splits)
  from m obtain t where s: "s = ''```mermaid\<newline>'' @ t" by (auto simp: at_mermaid_def startswith_iff)
  with f have "before_fence t = Some b" by simp
  from before_fence_Some[OF this] obtain r where "t = b @ ''```'' @ r" by blast
  with s show ?thesis by simp
qed

lemma concat_map_Eps: "concat (map (rmatch Eps) xs) = xs"
  by (induction xs) simp_all

lemma rmatch_Seq_Eps: "rmatch (Seq r Eps) st = rmatch r st"
  by (simp add: concat_map_Eps)

lemma rmatch_Seq_Eps2: "rmatch (Seq a (Seq b Eps)) st = rmatch (Seq a b) st"
proof -
  have "rmatch (Seq b Eps) = rmatch b" by (rule ext) (rule rmatch_Seq_Eps)
  then show ?thesis by simp
qed

lemma rmatch_Seq_Eps2_fun: "rmatch (Seq a (Seq b Eps)) = rmatch (Seq a b)"
  by (rule ext) (rule rmatch_Seq_Eps2)

lemma mermaid_re_eq:
  "rmatch mermaid_re st
   = rmatch (Seq (Str ''```mermaid\<newline>'') (Seq (Lazy (Cls any_char)) (Str ''```''))) st"
proof -
  have "rmatch (Seq (Str ''```mermaid\<newline>'') (Seq (Lazy (Cls any_char)) (Seq (Str ''```'') Eps))) st
        = concat (map (rmatch (Seq (Lazy (Cls any_char)) (Seq (Str ''```'') Eps)))
                      (rmatch (Str ''```mermaid\<newline>'') st))"
    by (rule rmatch.simps(9))
  also have "\<dots> = concat (map (rmatch (Seq (Lazy (Cls any_char)) (Str ''```'')))
                      (rmatch (Str ''```mermaid\<newline>'') st))"
    by (simp only: rmatch_Seq_Eps2_fun)
  also have "\<dots> = rmatch (Seq (Str ''```mermaid\<newline>'') (Seq (Lazy (Cls any_char)) (Str ''```''))) st"
    by (rule rmatch.simps(9)[symmetric])
  finally show ?thesis
    unfolding mermaid_re_def Seqs_Cons Seqs_Nil .
qed

lemma block_at_split:
  assumes "block_at s = Some b"
  obtains r where "s = ''```mermaid\<newline>'' @ b @ ''```'' @ r" "drop (length b + 14) s = r"
    "before_fence (b @ ''```'' @ r) = Some b"
proof -
  from assms have m: "at_mermaid s" and f: "before_fence (drop 11 s) = Some b"
    by (auto simp: block_at_def split: if_splits)
  from m obtain t where s: "s = ''```mermaid\<newline>'' @ t" by (auto simp: at_mermaid_def startswith_iff)
  with f have bf: "before_fence t = Some b" by simp
  from before_fence_Some[OF this] obtain r where t: "t = b @ ''```'' @ r" by blast
  from s t have 1: "s = ''```mermaid\<newline>'' @ b @ ''```'' @ r" by simp
  then have "s = (''```mermaid\<newline>'' @ b @ ''```'') @ r" by simp
  then have 2: "drop (length b + 14) s = r" by (simp del: append.simps append_assoc)
  from that[OF 1 2] bf t show ?thesis by simp
qed

lemma mermaid_match_none: "block_at s = None \<Longrightarrow> rmatch mermaid_re (p, s, []) = []"
proof (cases "at_mermaid s")
  case False
  then have "rmatch (Str ''```mermaid\<newline>'') (p, s, []) = []"
    by (simp only: rmatch_Str at_mermaid_def[symmetric] if_False)
  then show ?thesis
    by (simp only: mermaid_re_eq rmatch.simps(9)) simp
next
  case True
  assume "block_at s = None"
  with True have n: "before_fence (drop 11 s) = None" by (simp add: block_at_def)
  from True obtain t where s: "s = ''```mermaid\<newline>'' @ t" by (auto simp: at_mermaid_def startswith_iff)
  with n have "before_fence t = None" by simp
  from lazy_fence_none[OF this] have "rmatch (Seq (Lazy (Cls any_char)) (Str ''```'')) (Some CHR 0x0A, t, []) = []" .
  then have "rmatch (Seq (Str ''```mermaid\<newline>'') (Seq (Lazy (Cls any_char)) (Str ''```''))) (p, ''```mermaid\<newline>'' @ t, []) = []"
    by (simp only: rmatch.simps(9) rmatch_Str startswith_append) (simp add: lastp_def)
  with s show ?thesis
    by (simp only: mermaid_re_eq)
qed

lemma mermaid_match_some:
  assumes "block_at s = Some b"
  shows "heads (rmatch mermaid_re (p, s, [])) (Some CHR ''`'', drop (length b + 14) s, [])"
proof -
  from assms obtain r where s: "s = ''```mermaid\<newline>'' @ b @ ''```'' @ r"
    and d: "drop (length b + 14) s = r" and bf: "before_fence (b @ ''```'' @ r) = Some b"
    by (rule block_at_split)
  from lazy_fence_some[OF bf, of "Some CHR 0x0A" "[]"]
  have "heads (rmatch (Seq (Lazy (Cls any_char)) (Str ''```'')) (Some CHR 0x0A, b @ ''```'' @ r, [])) (Some CHR ''`'', r, [])"
    by simp
  then have "heads (rmatch (Seq (Str ''```mermaid\<newline>'') (Seq (Lazy (Cls any_char)) (Str ''```'')))
                 (p, ''```mermaid\<newline>'' @ b @ ''```'' @ r, [])) (Some CHR ''`'', r, [])"
    by (simp only: rmatch.simps(9) rmatch_Str startswith_append) (simp add: lastp_def)
  then show ?thesis
    unfolding d mermaid_re_eq unfolding s .
qed

lemma mermaid_scan: "scan mermaid_re False p s = map seg_piece (mermaid_segments s)"
proof (induction s arbitrary: p rule: mermaid_segments.induct)
  case (1 s)
  show ?case
  proof (cases "block_at s")
    case None
    note n = mermaid_match_none[OF None]
    show ?thesis
    proof (cases s)
      case Nil
      with n None show ?thesis
        by (subst mermaid_segments.simps) (simp add: scan_end)
    next
      case (Cons c cs)
      from n Cons have "scan mermaid_re False p (c # cs) = C c # scan mermaid_re False (Some c) cs"
        by (simp add: scan_miss)
      with 1(1)[OF None Cons] None Cons show ?thesis
        by (subst mermaid_segments.simps) simp
    qed
  next
    case (Some b)
    from Some obtain r where s: "s = ''```mermaid\<newline>'' @ b @ ''```'' @ r"
      and d: "drop (length b + 14) s = r"
      by (rule block_at_split)
    from mermaid_match_some[OF Some, of p] obtain rest where
      m: "rmatch mermaid_re (p, s, []) = (Some CHR ''`'', drop (length b + 14) s, []) # rest"
      by (auto simp: heads_def)
    have len: "length (drop (length b + 14) s) < length s"
      using block_at_length[OF Some] by simp
    have "s = (''```mermaid\<newline>'' @ b @ ''```'') @ r" using s by simp
    then have tk: "take (length s - length (drop (length b + 14) s)) s = ''```mermaid\<newline>'' @ b @ ''```''"
      unfolding d by (simp del: append.simps append_assoc)
    from scan_hit[OF m len] tk 1(2)[OF Some] Some show ?thesis
      by (subst mermaid_segments.simps) simp
  qed
qed

lemma subst_count_segments:
  "subst_count n (map seg_piece segs) = (figures n segs, n + count_blocks segs)"
proof (induction segs arbitrary: n)
  case Nil
  then show ?case by (simp add: count_blocks_def)
next
  case (Cons seg segs)
  then show ?case
    by (cases seg) (simp_all add: count_blocks_def replace_mermaid_def)
qed

lemma count_blocks_Nil [simp]: "count_blocks [] = 0"
  by (simp add: count_blocks_def)

lemma count_blocks_Cons [simp]:
  "count_blocks (Plain c # segs) = count_blocks segs"
  "count_blocks (Block b # segs) = Suc (count_blocks segs)"
  by (simp_all add: count_blocks_def)

lemma upt_Suc_shift: "[0..<Suc k] = 0 # map Suc [0..<k]"
  by (simp add: upt_conv_Cons map_Suc_upt del: upt_Suc)

lemma figures_render: "figures n segs = render n segs"
proof (induction segs arbitrary: n)
  case Nil
  then show ?case by (simp add: render_def)
next
  case (Cons seg segs)
  show ?case
  proof (cases seg)
    case (Plain c)
    have "render n (Plain c # segs) = c # render n segs"
      unfolding render_def length_Cons upt_Suc_shift
      by (simp add: comp_def del: upt_Suc cong: segment.case_cong)
    with Cons Plain show ?thesis by simp
  next
    case (Block b)
    have "render n (Block b # segs) = figure (n + 1) @ render (n + 1) segs"
      unfolding render_def length_Cons upt_Suc_shift
      by (simp add: comp_def del: upt_Suc cong: segment.case_cong)
    with Cons Block show ?thesis by simp
  qed
qed

lemma mermaid_segments_text: "concat (map seg_text (mermaid_segments s)) = s"
proof (induction s rule: mermaid_segments.induct)
  case (1 s)
  show ?case
  proof (cases "block_at s")
    case None
    show ?thesis
    proof (cases s)
      case Nil
      with None show ?thesis by (subst mermaid_segments.simps) simp
    next
      case (Cons c cs)
      with 1(1)[OF None Cons] None show ?thesis by (subst mermaid_segments.simps) simp
    qed
  next
    case (Some b)
    from Some obtain r where s: "s = ''```mermaid\<newline>'' @ b @ ''```'' @ r"
      and d: "drop (length b + 14) s = r"
      by (rule block_at_split)
    from 1(2)[OF Some] d have "concat (map seg_text (mermaid_segments (drop (length b + 14) s))) = r"
      by simp
    with Some s show ?thesis by (subst mermaid_segments.simps) simp
  qed
qed

lemma mermaid_blocks: 
  "replace_mermaid_blocks n s = (render n (mermaid_segments s), n + count_blocks (mermaid_segments s))"
  by (simp add: replace_mermaid_blocks_def mermaid_scan subst_count_segments figures_render)

lemma Star_Cls_exact:
  assumes fail: "\<And>p s g. s \<noteq> [] \<Longrightarrow> P (hd s) \<Longrightarrow> rmatch K (p, s, g) = []"
  shows "rmatch (Seq (Star (Cls P)) K) (p, s, g)
         = rmatch K (lastp p (takeWhile P s), dropWhile P s, g)"
proof (induction s arbitrary: p)
  case Nil
  then show ?case by (simp add: lastp_def)
next
  case (Cons c s)
  show ?case
  proof (cases "P c")
    case True
    have "rmatch K (p, c # s, g) = []" by (rule fail) (simp_all add: True)
    moreover have "lastp p (c # takeWhile P s) = lastp (Some c) (takeWhile P s)"
      by (simp add: lastp_def)
    ultimately show ?thesis using True Cons.IH[of "Some c"]
      by (simp only: rmatch_Star_Cls_Seq_Cons) simp
  next
    case False
    then show ?thesis
      by (simp only: rmatch_Star_Cls_Seq_Cons) (simp add: lastp_def)
  qed
qed

lemma rmatch_Lazy_any_Nil: "rmatch (Lazy (Cls any_char)) (p, [], g) = [(p, [], g)]"
  by (subst rmatch.simps(12)) simp

lemma rmatch_Lazy_any_Cons:
  "rmatch (Lazy (Cls any_char)) (p, c # cs, g)
   = (p, c # cs, g) # rmatch (Lazy (Cls any_char)) (Some c, cs, g)"
  by (subst rmatch.simps(12)) (simp add: any_char_def)

lemma body_then_fence_Nil: "body_then_fence a p [] g = []"
  by (simp add: body_then_fence_def rmatch_Lazy_any_Nil rmatch_fence del: Str_Cons Str_Nil)

lemma body_then_fence_Cons:
  "body_then_fence a p (c # cs) g
   = (if at_fence (c # cs) then [(Some CHR ''`'', drop 3 (c # cs), (1, a) # g)] else [])
     @ body_then_fence (a @ [c]) (Some c) cs g"
  by (simp add: body_then_fence_def rmatch_Lazy_any_Cons rmatch_fence del: Str_Cons Str_Nil)

lemma body_then_fence_none: "before_fence v = None \<Longrightarrow> body_then_fence a p v g = []"
proof (induction v arbitrary: a p)
  case Nil
  then show ?case by (simp add: body_then_fence_Nil)
next
  case (Cons c v)
  from Cons.prems have n: "\<not> at_fence (c # v)" and b: "before_fence v = None"
    by (auto split: if_splits option.splits)
  from Cons.IH[OF b] n show ?case by (simp add: body_then_fence_Cons)
qed

lemma body_then_fence_some:
  "before_fence v = Some b \<Longrightarrow>
   heads (body_then_fence a p v g) (Some CHR ''`'', drop (length b + 3) v, (1, a @ b) # g)"
proof (induction v arbitrary: a p b)
  case Nil
  then show ?case by simp
next
  case (Cons c v)
  show ?case
  proof (cases "at_fence (c # v)")
    case True
    with Cons.prems have "b = []" by simp
    with True show ?thesis by (simp add: body_then_fence_Cons)
  next
    case False
    with Cons.prems obtain b' where b': "before_fence v = Some b'" "b = c # b'"
      by (auto split: option.splits)
    have "length b + 3 = Suc (length b' + 3)" using b'(2) by simp
    then have d: "drop (length b + 3) (c # v) = drop (length b' + 3) v"
      by (simp only: drop_Suc_Cons)
    from Cons.IH[OF b'(1), of "a @ [c]" "Some c"] False show ?thesis
      unfolding d by (simp add: body_then_fence_Cons b'(2))
  qed
qed

lemma group_then_fence:
  "rmatch (Seq (Grp 1 (Lazy (Cls any_char))) (Str ''```'')) (p, v, g) = body_then_fence [] p v g"
  by (simp add: body_then_fence_def comp_def split_def del: Str_Cons Str_Nil)

lemma is_word_not_newline: "is_word c \<Longrightarrow> c \<noteq> CHR 0x0A"
  by (auto simp: is_word_def is_digit_def)

lemma code_tail_match:
  "rmatch (Seq (Chr CHR 0x0A) (Seq (Grp 1 (Lazy (Cls any_char))) (Seq (Str ''```'') Eps))) (p, u, g)
   = (case u of [] \<Rightarrow> [] | c # v \<Rightarrow> if c = CHR 0x0A then body_then_fence [] (Some CHR 0x0A) v g else [])"
proof (cases u)
  case Nil
  then show ?thesis by simp
next
  case (Cons c v)
  have "rmatch (Seq (Grp 1 (Lazy (Cls any_char))) (Seq (Str ''```'') Eps)) (Some CHR 0x0A, v, g)
        = body_then_fence [] (Some CHR 0x0A) v g"
    by (simp only: rmatch_Seq_Eps2 group_then_fence)
  then show ?thesis using Cons
    by (simp del: Str_Cons Str_Nil rmatch.simps(13))
qed

lemma code_block_match:
  "rmatch code_block_re (p, s, g)
   = (if at_fence s
      then (case dropWhile is_word (drop 3 s) of
              [] \<Rightarrow> []
            | c # v \<Rightarrow> if c = CHR 0x0A then body_then_fence [] (Some CHR 0x0A) v g else [])
      else [])"
proof -
  let ?K = "Seq (Chr CHR 0x0A) (Seq (Grp 1 (Lazy (Cls any_char))) (Seq (Str ''```'') Eps))"
  have star: "rmatch (Seq (Star (Cls is_word)) ?K) (q, t, g)
              = rmatch ?K (lastp q (takeWhile is_word t), dropWhile is_word t, g)" for q t
    by (rule Star_Cls_exact) (rule rmatch_Chr_Seq_Nil, simp add: is_word_not_newline)
  have "rmatch code_block_re (p, s, g)
        = concat (map (rmatch (Seq (Star (Cls is_word)) ?K)) (rmatch (Str ''```'') (p, s, g)))"
    unfolding code_block_re_def Seqs_Cons Seqs_Nil by (rule rmatch.simps(9))
  also have "\<dots> = (if at_fence s then rmatch (Seq (Star (Cls is_word)) ?K) (Some CHR ''`'', drop 3 s, g) else [])"
    by (simp only: rmatch_fence) simp
  finally show ?thesis
    by (simp only: star code_tail_match)
qed

lemma code_match_none:
  assumes "code_at s = None"
  shows "rmatch code_block_re (p, s, g) = []"
proof (cases "at_fence s")
  case False
  then show ?thesis by (simp only: code_block_match if_False)
next
  case True
  define u where "u = dropWhile is_word (drop 3 s)"
  show ?thesis
  proof (cases u)
    case Nil
    with True show ?thesis by (simp only: code_block_match u_def[symmetric]) simp
  next
    case (Cons c v)
    show ?thesis
    proof (cases "c = CHR 0x0A")
      case False
      with True Cons show ?thesis by (simp only: code_block_match u_def[symmetric]) simp
    next
      case nl: True
      from assms True Cons nl have "before_fence v = None"
        by (simp only: code_at_def u_def[symmetric]) (simp split: option.splits)
      from body_then_fence_none[OF this] True Cons nl show ?thesis
        by (simp only: code_block_match u_def[symmetric]) simp
    qed
  qed
qed

lemma code_match_some:
  assumes "code_at s = Some (tag, b)"
  shows "heads (rmatch code_block_re (p, s, g))
               (Some CHR ''`'', drop (length tag + length b + 7) s, (1, b) # g)"
proof -
  from assms have f: "at_fence s" by (auto simp: code_at_def split: if_splits)
  from assms f obtain v where
    dw: "dropWhile is_word (drop 3 s) = CHR 0x0A # v" and bf: "before_fence v = Some b"
    and tag: "tag = takeWhile is_word (drop 3 s)"
    by (auto simp: code_at_def split: if_splits list.splits option.splits)
  have "drop 3 s = tag @ CHR 0x0A # v"
    using takeWhile_dropWhile_id[of is_word "drop 3 s"] dw tag by simp
  then have "drop (length tag + 1) (drop 3 s) = v" by simp
  then have v: "v = drop (length tag + 4) s" by (simp add: add.commute)
  have "drop (length b + 3) v = drop (length tag + length b + 7) s"
    unfolding v by (simp add: add.commute add.left_commute)
  with body_then_fence_some[OF bf, of "[]" "Some CHR 0x0A" g] f dw show ?thesis
    unfolding code_block_match by simp
qed

lemma code_at_split:
  assumes "code_at s = Some (tag, b)"
  obtains r where "s = ''```'' @ tag @ ''\<newline>'' @ b @ ''```'' @ r"
    "drop (length tag + length b + 7) s = r"
proof -
  from assms have f: "at_fence s" by (auto simp: code_at_def split: if_splits)
  from assms f obtain v where
    dw: "dropWhile is_word (drop 3 s) = CHR 0x0A # v" and bf: "before_fence v = Some b"
    and tag: "tag = takeWhile is_word (drop 3 s)"
    by (auto simp: code_at_def split: if_splits list.splits option.splits)
  from f obtain t where s: "s = ''```'' @ t" by (auto simp: at_fence_def startswith_iff)
  have "drop 3 s = tag @ CHR 0x0A # v"
    using takeWhile_dropWhile_id[of is_word "drop 3 s"] dw tag by simp
  with s have t: "t = tag @ CHR 0x0A # v" by simp
  from before_fence_Some[OF bf] obtain r where v: "v = b @ ''```'' @ r" by blast
  from s t v have 1: "s = ''```'' @ tag @ ''\<newline>'' @ b @ ''```'' @ r" by simp
  then have "s = (''```'' @ tag @ ''\<newline>'' @ b @ ''```'') @ r" by simp
  then have 2: "drop (length tag + length b + 7) s = r" by (simp del: append.simps append_assoc)
  from that[OF 1 2] show ?thesis .
qed

lemma code_at_length: "code_at s = Some (tag, b) \<Longrightarrow> length tag + length b + 7 \<le> length s"
  by (erule code_at_split) simp

lemma code_scan: "scan code_block_re False p s = map code_piece (code_segments s)"
proof (induction s arbitrary: p rule: code_segments.induct)
  case (1 s)
  show ?case
  proof (cases "code_at s")
    case None
    note n = code_match_none[OF None]
    show ?thesis
    proof (cases s)
      case Nil
      with n None show ?thesis
        by (subst code_segments.simps) (simp add: scan_end)
    next
      case (Cons c cs)
      from n Cons have "scan code_block_re False p (c # cs) = C c # scan code_block_re False (Some c) cs"
        by (simp add: scan_miss)
      with 1(1)[OF None Cons] None Cons show ?thesis
        by (subst code_segments.simps) simp
    qed
  next
    case (Some tb)
    obtain tag b where tb: "tb = (tag, b)" by (cases tb)
    note S = Some[unfolded tb]
    from S obtain r where s: "s = ''```'' @ tag @ ''\<newline>'' @ b @ ''```'' @ r"
      and d: "drop (length tag + length b + 7) s = r"
      by (rule code_at_split)
    from code_match_some[OF S, of p "[]"] obtain rest where
      m: "rmatch code_block_re (p, s, []) = (Some CHR ''`'', drop (length tag + length b + 7) s, [(1, b)]) # rest"
      by (auto simp: heads_def)
    have len: "length (drop (length tag + length b + 7) s) < length s"
      using code_at_length[OF S] by simp
    have "s = (''```'' @ tag @ ''\<newline>'' @ b @ ''```'') @ r" using s by simp
    then have tk: "take (length s - length (drop (length tag + length b + 7) s)) s
                   = ''```'' @ tag @ ''\<newline>'' @ b @ ''```''"
      unfolding d by (simp del: append.simps append_assoc)
    from scan_hit[OF m len] tk 1(2)[OF S refl] S show ?thesis
      by (subst code_segments.simps) simp
  qed
qed

lemma code_segments_text: "concat (map code_text (code_segments s)) = s"
proof (induction s rule: code_segments.induct)
  case (1 s)
  show ?case
  proof (cases "code_at s")
    case None
    show ?thesis
    proof (cases s)
      case Nil
      with None show ?thesis by (subst code_segments.simps) simp
    next
      case (Cons c cs)
      with 1(1)[OF None Cons] None show ?thesis by (subst code_segments.simps) simp
    qed
  next
    case (Some tb)
    obtain tag b where tb: "tb = (tag, b)" by (cases tb)
    note S = Some[unfolded tb]
    from S obtain r where s: "s = ''```'' @ tag @ ''\<newline>'' @ b @ ''```'' @ r"
      and d: "drop (length tag + length b + 7) s = r"
      by (rule code_at_split)
    from 1(2)[OF S refl] d
    have "concat (map code_text (code_segments (drop (length tag + length b + 7) s))) = r"
      by simp
    with S s show ?thesis by (subst code_segments.simps) simp
  qed
qed

lemma replace_char:
  "replace [x] new s = concat (map (\<lambda>c. if c = x then new else [c]) s)"
proof (induction s)
  case Nil
  then show ?case by (simp add: replace_Nil)
next
  case (Cons c s)
  show ?case
  proof (cases "c = x")
    case True
    have "replace [x] new ([x] @ s) = new @ replace [x] new s" by (rule replace_hit) simp
    with True Cons show ?thesis by simp
  next
    case False
    then have "replace [x] new (c # s) = c # replace [x] new s"
      by (intro replace_miss) auto
    with False Cons show ?thesis by simp
  qed
qed

lemma escape_angle_chars: "escape_angle code = concat (map escape_char code)"
  unfolding escape_angle_def replace_char
  by (induction code) (simp_all add: escape_char_def)

lemma code_subst:
  "subst format_code_block (map code_piece segs) = Inr (concat (map code_html segs))"
proof (induction segs)
  case Nil
  then show ?case by simp
next
  case (Cons seg segs)
  then show ?case
    by (cases seg) (simp_all add: format_code_block_def group_def escape_angle_chars)
qed

lemma code_block_pass_segments:
  "code_block_pass s = Inr (concat (map code_html (code_segments s)))"
  by (simp add: code_block_pass_def re_sub_def code_scan code_subst)

section \<open>The injection, line by line\<close>

lemma endswith_iff: "endswith suf s \<longleftrightarrow> (\<exists>a. s = a @ suf)"
proof
  assume "endswith suf s"
  then have "s = take (length s - length suf) s @ suf"
    by (metis append_take_drop_id endswith_def)
  then show "\<exists>a. s = a @ suf" ..
next
  assume "\<exists>a. s = a @ suf"
  then show "endswith suf s" by (auto simp: endswith_def)
qed

lemma split_lines_append:
  "split [c] (a @ c # b) = split [c] a @ split [c] b"
proof (induction a)
  case Nil
  have "split [c] (c # b) = [] # split [c] b" by (subst split.simps) simp
  moreover have "split [c] [] = [[]]" by (subst split.simps) simp
  ultimately show ?case by simp
next
  case (Cons x a)
  show ?case
  proof (cases "x = c")
    case True
    have "split [c] (c # a @ c # b) = [] # split [c] (a @ c # b)" by (subst split.simps) simp
    moreover have "split [c] (c # a) = [] # split [c] a" by (subst split.simps) simp
    ultimately show ?thesis using True Cons by simp
  next
    case False
    obtain w ws where w: "split [c] a = w # ws" using split_nonempty[of "[c]" a] by (cases "split [c] a") auto
    have "split [c] (x # a @ c # b) = (case split [c] (a @ c # b) of [] \<Rightarrow> [[x]] | w # ws \<Rightarrow> (x # w) # ws)"
      using False by (subst split.simps) simp
    moreover have "split [c] (x # a) = (case split [c] a of [] \<Rightarrow> [[x]] | w # ws \<Rightarrow> (x # w) # ws)"
      using False by (subst split.simps) simp
    ultimately show ?thesis using Cons w by simp
  qed
qed

lemma split_lines_no: "l \<in> set (split [c] s) \<Longrightarrow> c \<notin> set l"
proof (induction s arbitrary: l)
  case Nil
  then show ?case by (subst (asm) split.simps) simp
next
  case (Cons x s)
  show ?case
  proof (cases "x = c")
    case True
    have "split [c] (c # s) = [] # split [c] s" by (subst split.simps) simp
    with Cons True show ?thesis by auto
  next
    case False
    obtain w ws where w: "split [c] s = w # ws" using split_nonempty[of "[c]" s] by (cases "split [c] s") auto
    have "split [c] (x # s) = (x # w) # ws"
      using False w by (subst split.simps) simp
    with Cons.prems have "l = x # w \<or> l \<in> set ws" by simp
    then show ?thesis
    proof
      assume "l = x # w"
      moreover have "c \<notin> set w" using Cons.IH[of w] w by simp
      ultimately show ?thesis using False by simp
    next
      assume "l \<in> set ws"
      then show ?thesis using Cons.IH[of l] w by simp
    qed
  qed
qed

lemma join_split_lines: "join [c] (split [c] s) = s"
proof (induction s)
  case Nil
  then show ?case by (subst split.simps) simp
next
  case (Cons x s)
  show ?case
  proof (cases "x = c")
    case True
    have "split [c] (c # s) = [] # split [c] s" by (subst split.simps) simp
    with Cons True show ?thesis by (simp add: join_Cons split_nonempty)
  next
    case False
    obtain w ws where w: "split [c] s = w # ws" using split_nonempty[of "[c]" s] by (cases "split [c] s") auto
    have "split [c] (x # s) = (x # w) # ws"
      using False w by (subst split.simps) simp
    with Cons w show ?thesis by (cases ws) auto
  qed
qed

lemma close_tag_at:
  assumes "CHR 0x0A \<notin> set l"
  shows "startswith ''</h1>\<newline>\<newline>'' (drop k l @ CHR 0x0A # X)
         \<longleftrightarrow> drop k l = ''</h1>'' \<and> startswith ''\<newline>'' X"
proof -
  from assms have "CHR 0x0A \<notin> set (drop k l)" by (meson in_set_dropD)
  from startswith_blank[OF this, of "''</h1>''" X] show ?thesis by simp
qed

lemma meta_skip_line:
  assumes l: "CHR 0x0A \<notin> set l" and no: "\<not> (endswith ''</h1>'' l \<and> startswith ''\<newline>'' X)"
  shows "replace ''</h1>\<newline>\<newline>'' new (l @ CHR 0x0A # X)
         = l @ CHR 0x0A # replace ''</h1>\<newline>\<newline>'' new X"
proof -
  have "replace ''</h1>\<newline>\<newline>'' new (l @ CHR 0x0A # X)
        = l @ replace ''</h1>\<newline>\<newline>'' new (CHR 0x0A # X)"
  proof (rule replace_skip)
    fix k assume k: "k < length l"
    show "\<not> startswith ''</h1>\<newline>\<newline>'' (drop k l @ CHR 0x0A # X)"
    proof
      assume "startswith ''</h1>\<newline>\<newline>'' (drop k l @ CHR 0x0A # X)"
      then have d: "drop k l = ''</h1>''" and x: "startswith ''\<newline>'' X"
        unfolding close_tag_at[OF l] by simp_all
      have "l = take k l @ drop k l" by simp
      with d have "endswith ''</h1>'' l" unfolding endswith_iff by metis
      with x no show False by simp
    qed
  qed simp
  then show ?thesis by (simp add: replace_miss)
qed

lemma meta_hit_line:
  assumes l: "CHR 0x0A \<notin> set l" and e: "endswith ''</h1>'' l"
  shows "replace ''</h1>\<newline>\<newline>'' new (l @ CHR 0x0A # CHR 0x0A # Y)
         = take (length l - 5) l @ new @ replace ''</h1>\<newline>\<newline>'' new Y"
proof -
  from e obtain a where a: "l = a @ ''</h1>''" unfolding endswith_iff by blast
  then have t: "take (length l - 5) l = a" by simp
  from l a have an: "CHR 0x0A \<notin> set a" by simp
  have "replace ''</h1>\<newline>\<newline>'' new (a @ ''</h1>\<newline>\<newline>'' @ Y)
        = a @ replace ''</h1>\<newline>\<newline>'' new (''</h1>\<newline>\<newline>'' @ Y)"
  proof (rule replace_skip)
    fix k assume k: "k < length a"
    have "CHR 0x0A \<notin> set (drop k a)" using an by (meson in_set_dropD)
    then have n: "CHR 0x0A \<notin> set (drop k a @ ''</h1>'')" by simp
    from k have "length (drop k a @ ''</h1>'') \<noteq> length ''</h1>''" by simp
    then have "drop k a @ ''</h1>'' \<noteq> ''</h1>''" by metis
    with startswith_blank[OF n, of "''</h1>''" "CHR 0x0A # Y"]
    show "\<not> startswith ''</h1>\<newline>\<newline>'' (drop k a @ ''</h1>\<newline>\<newline>'' @ Y)" by simp
  qed simp
  also have "replace ''</h1>\<newline>\<newline>'' new (''</h1>\<newline>\<newline>'' @ Y) = new @ replace ''</h1>\<newline>\<newline>'' new Y"
    by (rule replace_hit) simp
  finally show ?thesis unfolding t a by simp
qed

lemma meta_no_newline:
  "CHR 0x0A \<notin> set l \<Longrightarrow> replace ''</h1>\<newline>\<newline>'' new l = l"
proof (rule replace_none)
  assume l: "CHR 0x0A \<notin> set l"
  show "\<not> contains ''</h1>\<newline>\<newline>'' l"
  proof
    assume "contains ''</h1>\<newline>\<newline>'' l"
    from contains_set[OF this] l show False by simp
  qed
qed simp

lemma meta_lines:
  "\<forall>l \<in> set ls. CHR 0x0A \<notin> set l \<Longrightarrow>
   replace ''</h1>\<newline>\<newline>'' meta_block (join ''\<newline>'' ls) = inject_meta ls"
proof (induction ls rule: inject_meta.induct)
  case (1 l e m ls)
  from 1(3) have l: "CHR 0x0A \<notin> set l" and e: "CHR 0x0A \<notin> set e"
    and rest: "\<forall>l \<in> set (m # ls). CHR 0x0A \<notin> set l" "\<forall>l \<in> set (e # m # ls). CHR 0x0A \<notin> set l"
    by simp_all
  let ?X = "e @ CHR 0x0A # join ''\<newline>'' (m # ls)"
  have j: "join ''\<newline>'' (l # e # m # ls) = l @ CHR 0x0A # ?X" by simp
  have sw: "startswith ''\<newline>'' ?X \<longleftrightarrow> e = []" using e by (cases e) auto
  show ?case
  proof (cases "endswith ''</h1>'' l \<and> e = []")
    case True
    then have "join ''\<newline>'' (l # e # m # ls) = l @ CHR 0x0A # CHR 0x0A # join ''\<newline>'' (m # ls)"
      by simp
    with meta_hit_line[OF l, of meta_block "join ''\<newline>'' (m # ls)"] True 1(1)[OF True rest(1)]
    show ?thesis by simp
  next
    case False
    then have "\<not> (endswith ''</h1>'' l \<and> startswith ''\<newline>'' ?X)" unfolding sw .
    from meta_skip_line[OF l this, of meta_block] 1(2)[OF False rest(2)] False
    show ?thesis unfolding j by auto
  qed
next
  case (2 l e)
  then have l: "CHR 0x0A \<notin> set l" and e: "CHR 0x0A \<notin> set e" by simp_all
  have "\<not> startswith ''\<newline>'' e" using e by (cases e) auto
  then have "\<not> (endswith ''</h1>'' l \<and> startswith ''\<newline>'' e)" by simp
  from meta_skip_line[OF l this, of meta_block] meta_no_newline[OF e, of meta_block]
  show ?case by simp
next
  case (3 l)
  then show ?case by (simp add: meta_no_newline)
next
  case 4
  then show ?case by (simp add: replace_Nil)
qed

lemma meta_pass_lines: "meta_pass s = Inr (inject_meta (split ''\<newline>'' s))"
proof -
  have "\<forall>l \<in> set (split ''\<newline>'' s). CHR 0x0A \<notin> set l"
    using split_lines_no[of _ "CHR 0x0A" s] by auto
  from meta_lines[OF this] show ?thesis
    by (simp add: meta_pass_def join_split_lines)
qed

lemma h_line_no_newline:
  "CHR 0x0A \<notin> set l \<Longrightarrow> CHR 0x0A \<notin> set (h_line ''# '' ''<h1>'' ''</h1>'' l)"
  by (auto simp: h_line_def dest: in_set_dropD)

lemma title_meta_lines:
  "and_then (title_pass doc) meta_pass
   = Inr (inject_meta (map (h_line ''# '' ''<h1>'' ''</h1>'') (split ''\<newline>'' doc)))"
proof -
  let ?ls = "map (h_line ''# '' ''<h1>'' ''</h1>'') (split ''\<newline>'' doc)"
  have "\<forall>l \<in> set ?ls. CHR 0x0A \<notin> set l"
    using split_lines_no[of _ "CHR 0x0A" doc] h_line_no_newline by auto
  from meta_lines[OF this] show ?thesis
    by (simp add: title_pass_lines meta_pass_def)
qed

lemma inject_meta_step:
  "h \<noteq> [] \<Longrightarrow> inject_meta (e # h # B) = e @ ''\<newline>'' @ inject_meta (h # B)"
  by (cases B) simp_all

lemma inject_meta_prefix:
  "h \<noteq> [] \<Longrightarrow> A \<noteq> [] \<Longrightarrow>
   inject_meta (A @ h # B) = inject_meta (A @ [[]]) @ inject_meta (h # B)"
proof (induction A rule: inject_meta.induct)
  case (1 l e m ls)
  show ?case
  proof (cases "endswith ''</h1>'' l \<and> e = []")
    case True
    from 1(1)[OF True 1(3)] have "inject_meta ((m # ls) @ h # B) = inject_meta ((m # ls) @ [[]]) @ inject_meta (h # B)"
      by simp
    with True show ?thesis by simp
  next
    case False
    from 1(2)[OF False 1(3)] have "inject_meta ((e # m # ls) @ h # B) = inject_meta ((e # m # ls) @ [[]]) @ inject_meta (h # B)"
      by simp
    with False show ?thesis by auto
  qed
next
  case (2 l e)
  then show ?case by (simp add: inject_meta_step)
next
  case (3 l)
  then show ?case by (simp add: inject_meta_step)
next
  case 4
  then show ?case by simp
qed

lemma h_line_nonempty: "l \<noteq> [] \<Longrightarrow> h_line ''# '' ''<h1>'' ''</h1>'' l \<noteq> []"
  by (simp add: h_line_def)

lemma split_first_nonempty:
  assumes "z \<noteq> []" and "hd z \<noteq> c"
  shows "\<exists>w ws. split [c] z = w # ws \<and> w \<noteq> []"
proof -
  from assms obtain x s where z: "z = x # s" and x: "x \<noteq> c" by (cases z) auto
  obtain w ws where w: "split [c] s = w # ws" using split_nonempty[of "[c]" s] by (cases "split [c] s") auto
  have "split [c] (x # s) = (x # w) # ws" using x w by (subst split.simps) simp
  with z show ?thesis by simp
qed

lemma split_empty: "split [c] [] = [[]]"
  by (subst split.simps) simp

lemma title_meta_prefix:
  assumes x: "x = [] \<or> last x = CHR 0x0A" and z: "z \<noteq> []" "hd z \<noteq> CHR 0x0A"
  shows "\<exists>X Z. and_then (title_pass x) meta_pass = Inr X
           \<and> and_then (title_pass z) meta_pass = Inr Z
           \<and> and_then (title_pass (x @ z)) meta_pass = Inr (X @ Z)"
proof (cases "x = []")
  case True
  have "and_then (title_pass []) meta_pass = Inr []"
    by (simp add: title_meta_lines split_empty h_line_def)
  with True show ?thesis by (simp add: title_meta_lines)
next
  case False
  with x have "x = butlast x @ [CHR 0x0A]" by (metis append_butlast_last_id)
  then obtain x' where x': "x = x' @ [CHR 0x0A]" ..
  let ?h = "h_line ''# '' ''<h1>'' ''</h1>''"
  from split_first_nonempty[OF z] obtain w ws where w: "split ''\<newline>'' z = w # ws" "w \<noteq> []"
    by auto
  have sx: "split ''\<newline>'' x = split ''\<newline>'' x' @ [[]]"
    unfolding x' using split_lines_append[of "CHR 0x0A" x' "[]"] by (simp add: split_empty)
  have sxz: "split ''\<newline>'' (x @ z) = split ''\<newline>'' x' @ w # ws"
    unfolding x' using split_lines_append[of "CHR 0x0A" x' z] w by simp
  have ne: "map ?h (split ''\<newline>'' x') \<noteq> []" by (simp add: split_nonempty)
  have he: "?h [] = []" by (simp add: h_line_def)
  from inject_meta_prefix[OF h_line_nonempty[OF w(2)] ne, of "map ?h ws"]
  show ?thesis
    by (simp add: title_meta_lines sx sxz w he)
qed

lemma title_meta_blank_line_at:
  assumes "t \<noteq> []" and "CHR 0x0A \<notin> set t" and "x = [] \<or> last x = CHR 0x0A"
  shows "\<exists>X Y. and_then (title_pass x) meta_pass = Inr X
           \<and> and_then (title_pass y) meta_pass = Inr Y
           \<and> and_then (title_pass (x @ ''# '' @ t @ ''\<newline>\<newline>'' @ y)) meta_pass
             = Inr (X @ ''<h1>'' @ t @ meta_block @ Y)"
proof -
  from title_meta_blank_line[OF assms(1,2), of y] obtain Y where
    Y: "and_then (title_pass y) meta_pass = Inr Y"
    "and_then (title_pass (''# '' @ t @ ''\<newline>\<newline>'' @ y)) meta_pass = Inr (''<h1>'' @ t @ meta_block @ Y)"
    by blast
  from title_meta_prefix[OF assms(3), of "''# '' @ t @ ''\<newline>\<newline>'' @ y"] obtain X Z where
    "and_then (title_pass x) meta_pass = Inr X"
    "and_then (title_pass (''# '' @ t @ ''\<newline>\<newline>'' @ y)) meta_pass = Inr Z"
    "and_then (title_pass (x @ ''# '' @ t @ ''\<newline>\<newline>'' @ y)) meta_pass = Inr (X @ Z)"
    by auto
  with Y show ?thesis by auto
qed

lemma title_meta_text_line_at:
  assumes "t \<noteq> []" and "CHR 0x0A \<notin> set t" and "x = [] \<or> last x = CHR 0x0A"
    and "\<not> startswith ''\<newline>'' z"
  shows "\<exists>X Z. and_then (title_pass x) meta_pass = Inr X
           \<and> and_then (title_pass z) meta_pass = Inr Z
           \<and> and_then (title_pass (x @ ''# '' @ t @ ''\<newline>'' @ z)) meta_pass
             = Inr (X @ ''<h1>'' @ t @ ''</h1>\<newline>'' @ Z)"
proof -
  from title_meta_text_line[OF assms(1,2,4)] obtain Z where
    Z: "and_then (title_pass z) meta_pass = Inr Z"
    "and_then (title_pass (''# '' @ t @ ''\<newline>'' @ z)) meta_pass = Inr (''<h1>'' @ t @ ''</h1>\<newline>'' @ Z)"
    by blast
  from title_meta_prefix[OF assms(3), of "''# '' @ t @ ''\<newline>'' @ z"] obtain X W where
    "and_then (title_pass x) meta_pass = Inr X"
    "and_then (title_pass (''# '' @ t @ ''\<newline>'' @ z)) meta_pass = Inr W"
    "and_then (title_pass (x @ ''# '' @ t @ ''\<newline>'' @ z)) meta_pass = Inr (X @ W)"
    by auto
  with Z show ?thesis by auto
qed

lemma title_meta_end_at:
  assumes "t \<noteq> []" and "CHR 0x0A \<notin> set t" and "x = [] \<or> last x = CHR 0x0A"
  shows "\<exists>X. and_then (title_pass x) meta_pass = Inr X
           \<and> and_then (title_pass (x @ ''# '' @ t)) meta_pass = Inr (X @ ''<h1>'' @ t @ ''</h1>'')"
proof -
  from title_meta_prefix[OF assms(3), of "''# '' @ t"] obtain X W where
    "and_then (title_pass x) meta_pass = Inr X"
    "and_then (title_pass (''# '' @ t)) meta_pass = Inr W"
    "and_then (title_pass (x @ ''# '' @ t)) meta_pass = Inr (X @ W)"
    by auto
  with title_meta_end[OF assms(1,2)] show ?thesis by auto
qed

section \<open>The emphasis passes\<close>

lemma run_then_Nil: "run_then P K a p [] g = rmatch K (p, [], (1, a) # g)"
  by (simp add: run_then_def rmatch_Star_Cls_Nil)

lemma run_then_Cons:
  "run_then P K a p (c # v) g
   = (if P c then run_then P K (a @ [c]) (Some c) v g else []) @ rmatch K (p, c # v, (1, a) # g)"
  by (simp add: run_then_def rmatch_Star_Cls_Cons)

lemma run_then_eq:
  assumes fail: "\<And>p s g. s \<noteq> [] \<Longrightarrow> P (hd s) \<Longrightarrow> rmatch K (p, s, g) = []"
  shows "run_then P K a p v g
         = rmatch K (lastp p (takeWhile P v), dropWhile P v, (1, a @ takeWhile P v) # g)"
proof (induction v arbitrary: a p)
  case Nil
  then show ?case by (simp add: run_then_Nil lastp_def)
next
  case (Cons c v)
  show ?case
  proof (cases "P c")
    case True
    have "rmatch K (p, c # v, (1, a) # g) = []" by (rule fail) (simp_all add: True)
    moreover have "lastp p (c # takeWhile P v) = lastp (Some c) (takeWhile P v)"
      by (simp add: lastp_def)
    ultimately show ?thesis using True Cons.IH[of "a @ [c]" "Some c"]
      by (simp add: run_then_Cons)
  next
    case False
    then show ?thesis by (simp add: run_then_Cons lastp_def)
  qed
qed

lemma group_run:
  "rmatch (Seq (Grp 1 (Plus (Cls P))) K) (p, s, g)
   = (case s of [] \<Rightarrow> [] | c # v \<Rightarrow> if P c then run_then P K [c] (Some c) v g else [])"
proof (cases s)
  case Nil
  have "rmatch (Plus (Cls P)) (p, [], g) = []" by (rule rmatch_Plus_Cls_none) simp
  with Nil show ?thesis by simp
next
  case (Cons c v)
  then show ?thesis by (simp add: Plus_def run_then_def comp_def split_def)
qed

lemma group_run_eq:
  assumes fail: "\<And>p s g. s \<noteq> [] \<Longrightarrow> P (hd s) \<Longrightarrow> rmatch K (p, s, g) = []"
  shows "rmatch (Seq (Grp 1 (Plus (Cls P))) K) (p, s, g)
         = (if takeWhile P s = [] then []
            else rmatch K (Some (last (takeWhile P s)), dropWhile P s, (1, takeWhile P s) # g))"
proof (cases s)
  case Nil
  then show ?thesis unfolding group_run by simp
next
  case (Cons c v)
  show ?thesis
  proof (cases "P c")
    case True
    have r: "run_then P K [c] (Some c) v g
             = rmatch K (lastp (Some c) (takeWhile P v), dropWhile P v, (1, [c] @ takeWhile P v) # g)"
      by (rule run_then_eq) (rule fail)
    have "lastp (Some c) (takeWhile P v) = Some (last (c # takeWhile P v))"
      by (simp add: lastp_def)
    with True Cons r show ?thesis
      unfolding group_run by simp
  next
    case False
    with Cons show ?thesis unfolding group_run by simp
  qed
qed

lemma span_match:
  assumes opn: "\<And>p s g. rmatch Ro (p, s, g)
                  = (if startswith mk s then [(Some c, drop (length mk) s, g)] else [])"
    and cls: "\<And>p s g. rmatch Rc (p, s, g)
                  = (if startswith mk s then [(Some c, drop (length mk) s, g)] else [])"
    and mk: "mk \<noteq> []" "hd mk = c"
  shows "rmatch (Seq Ro (Seq (Grp 1 (Plus (Cls (not_chr c)))) Rc)) (p, s, g)
         = (case span_at mk c s of
              None \<Rightarrow> []
            | Some b \<Rightarrow> [(Some c, drop (length b + 2 * length mk) s, (1, b) # g)])"
proof -
  have fail: "rmatch Rc (p, s, g) = []" if "s \<noteq> []" "not_chr c (hd s)" for p s g
  proof -
    from that mk have "\<not> startswith mk s"
      by (cases s; cases mk) (auto simp: not_chr_def)
    then show ?thesis by (simp add: cls)
  qed
  let ?t = "drop (length mk) s"
  let ?b = "takeWhile (not_chr c) ?t"
  let ?r = "dropWhile (not_chr c) ?t"
  have "rmatch (Seq Ro (Seq (Grp 1 (Plus (Cls (not_chr c)))) Rc)) (p, s, g)
        = (if startswith mk s then rmatch (Seq (Grp 1 (Plus (Cls (not_chr c)))) Rc) (Some c, ?t, g) else [])"
    by (simp only: rmatch.simps(9) opn) simp
  also have "\<dots> = (if startswith mk s then
                      (if ?b = [] then [] else rmatch Rc (Some (last ?b), ?r, (1, ?b) # g)) else [])"
    using group_run_eq[of "not_chr c" Rc "Some c" ?t g, OF fail] by simp
  also have "\<dots> = (if startswith mk s \<and> ?b \<noteq> [] \<and> startswith mk ?r
                    then [(Some c, drop (length mk) ?r, (1, ?b) # g)] else [])"
    by (simp add: cls)
  finally have e: "rmatch (Seq Ro (Seq (Grp 1 (Plus (Cls (not_chr c)))) Rc)) (p, s, g)
        = (if startswith mk s \<and> ?b \<noteq> [] \<and> startswith mk ?r
           then [(Some c, drop (length mk) ?r, (1, ?b) # g)] else [])" .
  have "drop (length mk) ?r = drop (length ?b + 2 * length mk) s"
  proof -
    have "?r = drop (length ?b) ?t" by (metis append_eq_conv_conj takeWhile_dropWhile_id)
    moreover have "length mk + (length mk + length ?b) = length ?b + 2 * length mk" by simp
    ultimately show ?thesis by (simp only: drop_drop add.commute)
  qed
  with e show ?thesis by (simp add: span_at_def)
qed

lemma span_at_split:
  assumes "span_at mk c s = Some b"
  obtains r where "s = mk @ b @ mk @ r" "drop (length b + 2 * length mk) s = r" "b \<noteq> []"
proof -
  let ?t = "drop (length mk) s"
  from assms have 1: "startswith mk s" and 2: "b = takeWhile (not_chr c) ?t" and 3: "b \<noteq> []"
    and 4: "startswith mk (dropWhile (not_chr c) ?t)"
    by (auto simp: span_at_def split: if_splits)
  from 1 obtain t where t: "s = mk @ t" by (auto simp: startswith_iff)
  from 4 obtain r where r: "dropWhile (not_chr c) ?t = mk @ r" by (auto simp: startswith_iff)
  have "?t = b @ mk @ r" using takeWhile_dropWhile_id[of "not_chr c" ?t] 2 r by simp
  with t have s: "s = mk @ b @ mk @ r" by simp
  then have "s = (mk @ b @ mk) @ r" by simp
  then have "drop (length (mk @ b @ mk)) s = r" by (metis append_eq_conv_conj)
  moreover have "length (mk @ b @ mk) = length b + 2 * length mk" by simp
  ultimately have d: "drop (length b + 2 * length mk) s = r" by (simp only:)
  from that[OF s d 3] show ?thesis .
qed

lemma span_scan:
  "(\<And>p s g. rmatch R (p, s, g)
                 = (case span_at mk c s of
                      None \<Rightarrow> []
                    | Some b \<Rightarrow> [(Some c, drop (length b + 2 * length mk) s, (1, b) # g)])) \<Longrightarrow>
   scan R False p s = map (span_piece mk) (span_segments mk c s)"
proof (induction mk c s arbitrary: p rule: span_segments.induct)
  case (1 mk c s)
  note m = 1(3)
  show ?case
  proof (cases "span_at mk c s")
    case None
    have n: "rmatch R (p, s, []) = []" unfolding m None by simp
    show ?thesis
    proof (cases s)
      case Nil
      with n None show ?thesis
        by (subst span_segments.simps) (simp add: scan_end)
    next
      case (Cons x xs)
      from n Cons have "scan R False p (x # xs) = C x # scan R False (Some x) xs"
        by (simp add: scan_miss)
      with 1(1)[OF None Cons m] None Cons show ?thesis
        by (subst span_segments.simps) simp
    qed
  next
    case (Some b)
    from Some obtain r where s: "s = mk @ b @ mk @ r"
      and d: "drop (length b + 2 * length mk) s = r" and b: "b \<noteq> []"
      by (rule span_at_split)
    have mm: "rmatch R (p, s, []) = (Some c, drop (length b + 2 * length mk) s, [(1, b)]) # []"
      unfolding m Some by simp
    have len: "length (drop (length b + 2 * length mk) s) < length s"
      unfolding d using s b by simp
    have "s = (mk @ b @ mk) @ r" using s by simp
    then have "take (length s - length r) s = mk @ b @ mk"
      by (simp del: append_assoc)
    then have tk: "take (length s - length (drop (length b + 2 * length mk) s)) s = mk @ b @ mk"
      unfolding d .
    from scan_hit[OF mm len] tk 1(2)[OF Some m] Some show ?thesis
      by (subst span_segments.simps) simp
  qed
qed

lemma rmatch_Chr_startswith:
  "rmatch (Chr c) (p, s, g) = (if startswith [c] s then [(Some c, drop (length [c]) s, g)] else [])"
  by (cases s) auto

lemma rmatch_stars:
  "rmatch (Str ''**'') (p, s, g)
   = (if startswith ''**'' s then [(Some CHR ''*'', drop (length ''**'') s, g)] else [])"
  by (simp only: rmatch_Str) (simp add: lastp_def)

lemma bold_match:
  "rmatch bold_re (p, s, g)
   = (case span_at ''**'' CHR ''*'' s of
        None \<Rightarrow> []
      | Some b \<Rightarrow> [(Some CHR ''*'', drop (length b + 2 * length ''**'') s, (1, b) # g)])"
proof -
  let ?G = "Grp 1 (Plus (Cls (not_chr CHR ''*'')))"
  have "rmatch bold_re (p, s, g)
        = concat (map (rmatch (Seq ?G (Seq (Str ''**'') Eps))) (rmatch (Str ''**'') (p, s, g)))"
    unfolding bold_re_def Seqs_Cons Seqs_Nil by (rule rmatch.simps(9))
  also have "\<dots> = concat (map (rmatch (Seq ?G (Str ''**''))) (rmatch (Str ''**'') (p, s, g)))"
    by (simp only: rmatch_Seq_Eps2_fun)
  also have "\<dots> = rmatch (Seq (Str ''**'') (Seq ?G (Str ''**''))) (p, s, g)"
    by (rule rmatch.simps(9)[symmetric])
  also have "\<dots> = (case span_at ''**'' CHR ''*'' s of
        None \<Rightarrow> []
      | Some b \<Rightarrow> [(Some CHR ''*'', drop (length b + 2 * length ''**'') s, (1, b) # g)])"
    by (rule span_match) (simp_all only: rmatch_stars, simp_all)
  finally show ?thesis .
qed

lemma italic_match:
  "rmatch italic_re (p, s, g)
   = (case span_at ''*'' CHR ''*'' s of
        None \<Rightarrow> []
      | Some b \<Rightarrow> [(Some CHR ''*'', drop (length b + 2 * length ''*'') s, (1, b) # g)])"
proof -
  let ?G = "Grp 1 (Plus (Cls (not_chr CHR ''*'')))"
  have "rmatch italic_re (p, s, g)
        = concat (map (rmatch (Seq ?G (Seq (Chr CHR ''*'') Eps))) (rmatch (Chr CHR ''*'') (p, s, g)))"
    unfolding italic_re_def Seqs_Cons Seqs_Nil by (rule rmatch.simps(9))
  also have "\<dots> = concat (map (rmatch (Seq ?G (Chr CHR ''*''))) (rmatch (Chr CHR ''*'') (p, s, g)))"
    by (simp only: rmatch_Seq_Eps2_fun)
  also have "\<dots> = rmatch (Seq (Chr CHR ''*'') (Seq ?G (Chr CHR ''*''))) (p, s, g)"
    by (rule rmatch.simps(9)[symmetric])
  also have "\<dots> = (case span_at ''*'' CHR ''*'' s of
        None \<Rightarrow> []
      | Some b \<Rightarrow> [(Some CHR ''*'', drop (length b + 2 * length ''*'') s, (1, b) # g)])"
    by (rule span_match) (simp_all only: rmatch_Chr_startswith, simp_all)
  finally show ?thesis .
qed

lemma span_subst:
  "subst (expand [T (''<'' @ tag @ ''>''), G 1, T (''</'' @ tag @ ''>'')]) (map (span_piece mk) segs)
   = Inr (concat (map (span_html tag) segs))"
proof (induction segs)
  case Nil
  then show ?case by simp
next
  case (Cons seg segs)
  then show ?case by (cases seg) simp_all
qed

lemma span_segments_text: "concat (map (span_text mk) (span_segments mk c s)) = s"
proof (induction mk c s rule: span_segments.induct)
  case (1 mk c s)
  show ?case
  proof (cases "span_at mk c s")
    case None
    show ?thesis
    proof (cases s)
      case Nil
      with None show ?thesis by (subst span_segments.simps) simp
    next
      case (Cons x xs)
      with 1(1)[OF None Cons] None show ?thesis by (subst span_segments.simps) simp
    qed
  next
    case (Some b)
    from Some obtain r where s: "s = mk @ b @ mk @ r"
      and d: "drop (length b + 2 * length mk) s = r"
      by (rule span_at_split)
    from 1(2)[OF Some] d have "concat (map (span_text mk) (span_segments mk c (drop (length b + 2 * length mk) s))) = r"
      by simp
    with Some s show ?thesis by (subst span_segments.simps) simp
  qed
qed

lemma bold_pass_spans:
  "bold_pass s = Inr (concat (map (span_html ''strong'') (span_segments ''**'' CHR ''*'' s)))"
proof -
  have "scan bold_re False None s = map (span_piece ''**'') (span_segments ''**'' CHR ''*'' s)"
    by (rule span_scan) (rule bold_match)
  with span_subst[of "''strong''" "''**''"] show ?thesis
    by (simp add: bold_pass_def re_sub_def)
qed

lemma italic_pass_spans:
  "italic_pass s = Inr (concat (map (span_html ''em'') (span_segments ''*'' CHR ''*'' s)))"
proof -
  have "scan italic_re False None s = map (span_piece ''*'') (span_segments ''*'' CHR ''*'' s)"
    by (rule span_scan) (rule italic_match)
  with span_subst[of "''em''" "''*''"] show ?thesis
    by (simp add: italic_pass_def re_sub_def)
qed

lemma bold_then_italic:
  "md_to_html s
   = foldl and_then
       (and_then (and_then (foldl and_then (Inr s)
            [title_pass, meta_pass, h2_pass, h3_pass, hr_pass, code_block_pass, inline_code_pass])
          bold_pass) italic_pass)
       [image_pass, table_pass, list_pass, ol_pass, \<lambda>text. Inr (paragraph_pass text), cleanup_pass]"
  by (simp add: md_to_html_def passes_def)

section \<open>The table blocks\<close>

lemma drop_line: "drop (length l + 1 + n) (l @ c # r) = drop n r"
  by simp

lemma line_rest:
  "dropWhile dot s = [] \<or> hd (dropWhile dot s) = CHR 0x0A"
  using hd_dropWhile[of dot s] by (auto simp: dot_def)

lemma line_no_newline: "CHR 0x0A \<notin> set (takeWhile dot s)"
  by (auto simp: dot_def dest: set_takeWhileD)

lemma row_tail_iff:
  assumes "CHR 0x0A \<notin> set l" and "rest = [] \<or> hd rest = CHR 0x0A"
  shows "rmatch (Seq (Star (Cls dot)) (Seq (Chr CHR ''|'') (Seq (Chr CHR 0x0A) Eps))) (q, l @ rest, g)
         = (if l \<noteq> [] \<and> last l = CHR ''|'' \<and> rest \<noteq> [] then [(Some CHR 0x0A, tl rest, g)] else [])"
  using assms(1)
proof (induction l arbitrary: q)
  case Nil
  show ?case
  proof (cases rest)
    case Nil
    then show ?thesis by simp
  next
    case (Cons c r)
    with assms(2) have "c = CHR 0x0A" by simp
    with Cons show ?thesis
      by (simp only: append_Nil rmatch_Star_Cls_Seq_Cons) (simp add: dot_def)
  qed
next
  case (Cons c l)
  from Cons.prems have c: "c \<noteq> CHR 0x0A" and l: "CHR 0x0A \<notin> set l" by auto
  let ?K = "Seq (Chr CHR ''|'') (Seq (Chr CHR 0x0A) Eps)"
  have k: "rmatch ?K (q, c # l @ rest, g)
           = (if l = [] \<and> c = CHR ''|'' \<and> rest \<noteq> [] then [(Some CHR 0x0A, tl rest, g)] else [])"
  proof (cases l)
    case Nil
    with assms(2) show ?thesis by (cases rest) auto
  next
    case (Cons d m)
    with l show ?thesis by auto
  qed
  show ?case
    using Cons.IH[OF l, of "Some c"] c k
    by (simp only: append_Cons rmatch_Star_Cls_Seq_Cons) (auto simp: dot_def)
qed

lemma row_none:
  assumes "\<not> (table_line (takeWhile dot s) \<and> dropWhile dot s \<noteq> [])"
  shows "rmatch row_re (p, s, g) = []"
proof -
  define l where "l = takeWhile dot s"
  define rest where "rest = dropWhile dot s"
  have s: "s = l @ rest" by (simp add: l_def rest_def)
  have ln: "CHR 0x0A \<notin> set l" unfolding l_def by (rule line_no_newline)
  have r: "rest = [] \<or> hd rest = CHR 0x0A" unfolding rest_def by (rule line_rest)
  from assms have no: "\<not> (table_line l \<and> rest \<noteq> [])" by (simp add: l_def rest_def)
  let ?K = "Seq (Chr CHR ''|'') (Seq (Chr CHR 0x0A) Eps)"
  have "rmatch (Seq (Chr CHR ''|'') (Seq (Plus (Cls dot)) ?K)) (p, l @ rest, g) = []"
  proof (cases l)
    case Nil
    with r show ?thesis by (intro rmatch_Chr_Seq_Nil) auto
  next
    case c: (Cons c l1)
    show ?thesis
    proof (cases "c = CHR ''|''")
      case False
      with c show ?thesis by (intro rmatch_Chr_Seq_Nil) auto
    next
      case True
      have "rmatch (Seq (Plus (Cls dot)) ?K) (Some CHR ''|'', l1 @ rest, g) = []"
      proof (cases l1)
        case Nil
        with r show ?thesis
          unfolding rmatch_Plus_Cls_Seq by (cases rest) (auto simp: dot_def)
      next
        case d: (Cons d m)
        from ln c d have dd: "dot d" and m: "CHR 0x0A \<notin> set m" by (auto simp: dot_def)
        have "table_line l \<longleftrightarrow> m \<noteq> [] \<and> last m = CHR ''|''"
          using c d True ln by (cases m) (auto simp: table_line_def)
        with no have f: "\<not> (m \<noteq> [] \<and> last m = CHR ''|'' \<and> rest \<noteq> [])" by blast
        have "rmatch (Seq (Plus (Cls dot)) ?K) (Some CHR ''|'', d # m @ rest, g)
              = rmatch (Seq (Star (Cls dot)) ?K) (Some d, m @ rest, g)"
          unfolding rmatch_Plus_Cls_Seq using dd by simp
        also have "\<dots> = []" using row_tail_iff[OF m r, of "Some d" g] f by auto
        finally show ?thesis using d by simp
      qed
      with c True show ?thesis by simp
    qed
  qed
  then have "rmatch (Seqs [Chr CHR ''|'', Plus (Cls dot), Chr CHR ''|'', Chr CHR 0x0A]) (p, s, g) = []"
    unfolding s by simp
  then show ?thesis unfolding row_re_def by (rule rmatch_Grp_Nil)
qed

lemma row_at:
  assumes "table_line (takeWhile dot s)" and "dropWhile dot s \<noteq> []"
  shows "rmatch row_re (p, s, g)
         = [(Some CHR 0x0A, tl (dropWhile dot s), (1, takeWhile dot s @ ''\<newline>'') # g)]"
proof -
  from assms(2) line_rest[of s] obtain r where r: "dropWhile dot s = CHR 0x0A # r"
    by (cases "dropWhile dot s") auto
  have "s = takeWhile dot s @ CHR 0x0A # r" using takeWhile_dropWhile_id[of dot s] r by simp
  with row_match[OF assms(1), of p r g] r show ?thesis by simp
qed

lemma rows_at_Cons:
  "table_line (takeWhile dot s) \<Longrightarrow> dropWhile dot s \<noteq> [] \<Longrightarrow>
   rows_at s = takeWhile dot s # rows_at (tl (dropWhile dot s))"
  by (subst rows_at.simps) simp

lemma rows_at_Nil:
  "\<not> (table_line (takeWhile dot s) \<and> dropWhile dot s \<noteq> []) \<Longrightarrow> rows_at s = []"
  by (subst rows_at.simps) simp

lemma rows_at_lines: "list_all table_line (rows_at s)"
proof (induction s rule: rows_at.induct)
  case (1 s)
  show ?case
  proof (cases "table_line (takeWhile dot s) \<and> dropWhile dot s \<noteq> []")
    case True
    with 1 show ?thesis by (simp add: rows_at_Cons)
  next
    case False
    then show ?thesis by (simp add: rows_at_Nil)
  qed
qed

lemma rows_at_prefix: "s = rows_text (rows_at s) @ drop (length (rows_text (rows_at s))) s"
proof (induction s rule: rows_at.induct)
  case (1 s)
  show ?case
  proof (cases "table_line (takeWhile dot s) \<and> dropWhile dot s \<noteq> []")
    case True
    then have t: "table_line (takeWhile dot s)" and d: "dropWhile dot s \<noteq> []" by simp_all
    from d line_rest[of s] obtain r where r: "dropWhile dot s = CHR 0x0A # r"
      by (cases "dropWhile dot s") auto
    have s: "s = takeWhile dot s @ CHR 0x0A # r" using takeWhile_dropWhile_id[of dot s] r by simp
    from 1[OF True] r have ih: "r = rows_text (rows_at r) @ drop (length (rows_text (rows_at r))) r"
      by simp
    have ra: "rows_at s = takeWhile dot s # rows_at r" using rows_at_Cons[OF t d] r by simp
    let ?l = "takeWhile dot s"
    let ?n = "length (rows_text (rows_at r))"
    have "drop (length ?l + 1 + ?n) s = drop ?n r"
      by (subst (2) s) (rule drop_line)
    then have "drop (length (rows_text (rows_at s))) s = drop ?n r"
      unfolding ra by (simp add: add.commute add.left_commute)
    moreover have "rows_text (rows_at s) = ?l @ CHR 0x0A # rows_text (rows_at r)"
      unfolding ra by simp
    ultimately have "rows_text (rows_at s) @ drop (length (rows_text (rows_at s))) s
                     = ?l @ CHR 0x0A # (rows_text (rows_at r) @ drop ?n r)" by simp
    also have "\<dots> = ?l @ CHR 0x0A # r" using ih by simp
    finally show ?thesis using s by simp
  next
    case False
    then show ?thesis by (simp add: rows_at_Nil)
  qed
qed

lemma rows_star_at:
  "\<exists>p' g'. heads (rmatch (Star row_re) (p, s, g)) (p', drop (length (rows_text (rows_at s))) s, g')"
proof (induction s arbitrary: p g rule: rows_at.induct)
  case (1 s)
  show ?case
  proof (cases "table_line (takeWhile dot s) \<and> dropWhile dot s \<noteq> []")
    case True
    then have t: "table_line (takeWhile dot s)" and d: "dropWhile dot s \<noteq> []" by simp_all
    from d line_rest[of s] obtain r where r: "dropWhile dot s = CHR 0x0A # r"
      by (cases "dropWhile dot s") auto
    have s: "s = takeWhile dot s @ CHR 0x0A # r" using takeWhile_dropWhile_id[of dot s] r by simp
    then have "length s = length (takeWhile dot s) + 1 + length r"
      by (metis length_append length_Cons Suc_eq_plus1 add.assoc add.commute)
    then have len: "length r < length s" by simp
    have ra: "rows_at s = takeWhile dot s # rows_at r" using rows_at_Cons[OF t d] r by simp
    let ?l = "takeWhile dot s"
    let ?n = "length (rows_text (rows_at r))"
    from 1[OF True, of "Some CHR 0x0A" "(1, ?l @ ''\<newline>'') # g"] r obtain p' g' where
      h: "heads (rmatch (Star row_re) (Some CHR 0x0A, r, (1, ?l @ ''\<newline>'') # g)) (p', drop ?n r, g')"
      by auto
    have "drop (length ?l + 1 + ?n) s = drop ?n r"
      by (subst (2) s) (rule drop_line)
    then have dr: "drop (length (rows_text (rows_at s))) s = drop ?n r"
      unfolding ra by (simp add: add.commute add.left_commute)
    have "heads (rmatch (Star row_re) (p, s, g)) (p', drop ?n r, g')"
      using h len r by (subst rmatch.simps(11)) (auto simp: row_at[OF t d] heads_def)
    then show ?thesis unfolding dr by blast
  next
    case False
    from row_none[OF False] have "rmatch (Star row_re) (p, s, g) = [(p, s, g)]"
      by (subst rmatch.simps(11)) simp
    then show ?thesis by (simp add: rows_at_Nil[OF False])
  qed
qed

lemma table_none_at: "rows_at s = [] \<Longrightarrow> rmatch table_re (p, s, g) = []"
proof -
  assume a: "rows_at s = []"
  have "\<not> (table_line (takeWhile dot s) \<and> dropWhile dot s \<noteq> [])"
  proof
    assume "table_line (takeWhile dot s) \<and> dropWhile dot s \<noteq> []"
    then have "rows_at s \<noteq> []" by (simp add: rows_at_Cons)
    with a show False by simp
  qed
  from row_none[OF this] show ?thesis by (simp add: table_re_rows Plus_def)
qed

lemma table_match_at:
  assumes "rows_at s = h # rows"
  shows "\<exists>p' g'. heads (rmatch table_re (p, s, [])) (p', drop (length (rows_text (h # rows))) s, g')"
proof -
  have c: "table_line (takeWhile dot s) \<and> dropWhile dot s \<noteq> []"
  proof (rule ccontr)
    assume "\<not> ?thesis"
    from rows_at_Nil[OF this] assms show False by simp
  qed
  then have t: "table_line (takeWhile dot s)" and d: "dropWhile dot s \<noteq> []" by simp_all
  from d line_rest[of s] obtain r where r: "dropWhile dot s = CHR 0x0A # r"
    by (cases "dropWhile dot s") auto
  have s: "s = takeWhile dot s @ CHR 0x0A # r" using takeWhile_dropWhile_id[of dot s] r by simp
  have ra: "rows_at s = takeWhile dot s # rows_at r" using rows_at_Cons[OF t d] r by simp
  let ?l = "takeWhile dot s"
  let ?n = "length (rows_text (rows_at r))"
  from rows_star_at[of "Some CHR 0x0A" r "[(1, ?l @ ''\<newline>'')]"] obtain p' g' where
    h: "heads (rmatch (Star row_re) (Some CHR 0x0A, r, [(1, ?l @ ''\<newline>'')])) (p', drop ?n r, g')"
    by auto
  have "drop (length ?l + 1 + ?n) s = drop ?n r"
    by (subst (2) s) (rule drop_line)
  then have dr: "drop (length (rows_text (rows_at s))) s = drop ?n r"
    unfolding ra by (simp add: add.commute add.left_commute)
  have "heads (rmatch table_re (p, s, [])) (p', drop ?n r, g')"
    using h r by (simp add: table_re_rows Plus_def row_at[OF t d])
  then show ?thesis unfolding dr[symmetric] assms by blast
qed

lemma format_table_rows:
  assumes "list_all table_line (h # rows)"
  shows "format_table ((0, rows_text (h # rows)) # g') = Inr (table_html (Table (h # rows)))"
proof -
  from assms have nl: "\<forall>r \<in> set (h # rows). CHR 0x0A \<notin> set r"
    using table_line_ends by (auto simp: list_all_iff)
  have lines: "split ''\<newline>'' (strip (rows_text (h # rows))) = h # rows"
    unfolding strip_rows[OF assms] by (rule split_join_lines[OF _ nl]) simp
  have "table_rows 0 (h # rows)
        = (if contains ''---'' h then [] else table_row ''th'' h)
          @ concat (map (\<lambda>r. if contains ''---'' r then [] else table_row ''td'' r) rows)"
    using table_rows_data[of 0 rows] by simp
  with lines show ?thesis
    by (simp add: format_table_def group_def)
qed

lemma table_subst:
  "subst format_table (scan table_re False p s) = Inr (concat (map table_html (table_segments s)))"
proof (induction s arbitrary: p rule: table_segments.induct)
  case (1 s)
  show ?case
  proof (cases "rows_at s")
    case Nil
    note n = table_none_at[OF Nil]
    show ?thesis
    proof (cases s)
      case e: Nil
      with n Nil show ?thesis
        by (subst table_segments.simps) (simp add: scan_end)
    next
      case (Cons c cs)
      from n Cons have "scan table_re False p (c # cs) = C c # scan table_re False (Some c) cs"
        by (simp add: scan_miss)
      with 1(1)[OF Nil Cons] Nil Cons show ?thesis
        by (subst table_segments.simps) simp
    qed
  next
    case (Cons h rows)
    let ?n = "length (rows_text (h # rows))"
    from table_match_at[OF Cons, of p] obtain p' g' rest where
      m: "rmatch table_re (p, s, []) = (p', drop ?n s, g') # rest"
      by (auto simp: heads_def)
    from rows_at_prefix[of s] Cons have pre: "s = rows_text (h # rows) @ drop ?n s" by simp
    then have "length s = ?n + length (drop ?n s)" by (metis length_append)
    moreover have "0 < ?n" by simp
    ultimately have len: "length (drop ?n s) < length s" by linarith
    from pre have tk: "take (length s - length (drop ?n s)) s = rows_text (h # rows)"
      by (metis append_eq_conv_conj diff_diff_cancel length_drop diff_le_self take_all_iff linorder_le_cases take_all)
    from rows_at_lines[of s] Cons have "list_all table_line (h # rows)" by simp
    note f = format_table_rows[OF this, of g']
    from scan_hit[OF m len] have
      "scan table_re False p s = M ((0, rows_text (h # rows)) # g') # scan table_re False p' (drop ?n s)"
      unfolding tk .
    with f 1(2)[OF Cons, of p'] Cons show ?thesis
      by (subst table_segments.simps) (simp del: table_html.simps rows_text_simps)
  qed
qed

lemma table_pass_segments:
  "table_pass s = Inr (concat (map table_html (table_segments s)))"
  by (simp add: table_pass_def re_sub_def table_subst)

lemma table_segments_text: "concat (map table_text (table_segments s)) = s"
proof (induction s rule: table_segments.induct)
  case (1 s)
  show ?case
  proof (cases "rows_at s")
    case Nil
    show ?thesis
    proof (cases s)
      case e: Nil
      with Nil show ?thesis by (subst table_segments.simps) simp
    next
      case (Cons c cs)
      with 1(1)[OF Nil Cons] Nil show ?thesis by (subst table_segments.simps) simp
    qed
  next
    case (Cons h rows)
    from rows_at_prefix[of s] Cons
    have pre: "s = rows_text (h # rows) @ drop (length (rows_text (h # rows))) s" by simp
    from 1(2)[OF Cons] Cons have
      "concat (map table_text (table_segments s))
       = rows_text (h # rows) @ drop (length (rows_text (h # rows))) s"
      by (subst table_segments.simps) (simp del: rows_text_simps)
    with pre show ?thesis by simp
  qed
qed

section \<open>Plain text\<close>

lemma contains_prefix: "contains (x @ y) s \<Longrightarrow> contains x s"
  by (auto simp: contains_iff)

lemma contains_char: "contains [c] s \<longleftrightarrow> c \<in> set s"
  by (induction s) auto

lemma plain_before_paragraph:
  assumes "plain s"
  shows "title_pass s = Inr s" "meta_pass s = Inr s" "h2_pass s = Inr s" "h3_pass s = Inr s"
    "hr_pass s = Inr s" "code_block_pass s = Inr s" "inline_code_pass s = Inr s"
    "bold_pass s = Inr s" "italic_pass s = Inr s" "image_pass s = Inr s" "table_pass s = Inr s"
    "list_pass s = Inr s" "ol_pass s = Inr s"
proof -
  from assms have c: "\<not> contains ''# '' s" "\<not> contains ''--'' s" "\<not> contains ''`'' s"
    "\<not> contains ''*'' s" "\<not> contains ''!['' s" "\<not> contains ''|'' s" "\<not> contains ''<'' s"
    and l: "\<forall>t \<in> set (line_suffixes s). \<not> list_trigger t"
    and o: "\<forall>t \<in> set (line_suffixes s). \<not> ol_trigger t"
    by (simp_all add: plain_def list_all_iff)
  show "title_pass s = Inr s"
    unfolding title_pass_def by (rule re_sub_musthave[OF musthave_heading c(1)])
  from c(7) have "\<not> contains ''</h1>\<newline>\<newline>'' s"
    using contains_prefix[of "''<''" "''/h1>\<newline>\<newline>''" s] by auto
  then show "meta_pass s = Inr s" by (rule meta_pass_id)
  from c(1) have "\<not> contains ''## '' s"
    using contains_drop_prefix[of "''#''" "''# ''" s] by auto
  then show "h2_pass s = Inr s" by (rule h2_pass_id)
  from c(1) have "\<not> contains ''### '' s"
    using contains_drop_prefix[of "''##''" "''# ''" s] by auto
  then show "h3_pass s = Inr s" by (rule h3_pass_id)
  from c(2) show "hr_pass s = Inr s" by (rule hr_pass_id)
  from c(3) have "\<not> contains ''```'' s"
    using contains_prefix[of "''`''" "''``''" s] by auto
  then show "code_block_pass s = Inr s" by (rule code_block_pass_id)
  from c(3) show "inline_code_pass s = Inr s" by (rule inline_code_pass_id)
  from c(4) have "\<not> contains ''**'' s"
    using contains_prefix[of "''*''" "''*''" s] by auto
  then show "bold_pass s = Inr s" by (rule bold_pass_id)
  from c(4) show "italic_pass s = Inr s" by (rule italic_pass_id)
  from c(5) show "image_pass s = Inr s" by (rule image_pass_id)
  from c(6) show "table_pass s = Inr s" by (rule table_pass_id)
  from l show "list_pass s = Inr s" by (rule list_pass_id)
  from o show "ol_pass s = Inr s" by (rule ol_pass_id)
qed

lemma split_set: "l \<in> set (split sep s) \<Longrightarrow> set l \<subseteq> set s"
proof (induction sep s arbitrary: l rule: split.induct)
  case (1 sep s)
  show ?case
  proof (cases "sep \<noteq> [] \<and> startswith sep s")
    case True
    then have e: "split sep s = [] # split sep (drop (length sep) s)"
      by (subst split.simps) simp
    with 1(3) have "l = [] \<or> l \<in> set (split sep (drop (length sep) s))" by simp
    then show ?thesis
    proof
      assume "l = []" then show ?thesis by simp
    next
      assume "l \<in> set (split sep (drop (length sep) s))"
      from 1(1)[OF True this] show ?thesis by (meson in_set_dropD subset_iff)
    qed
  next
    case False
    show ?thesis
    proof (cases s)
      case Nil
      with False have "split sep s = [[]]" by (subst split.simps) auto
      with 1(3) show ?thesis by simp
    next
      case (Cons c cs)
      obtain w ws where w: "split sep cs = w # ws"
        using split_nonempty[of sep cs] by (cases "split sep cs") auto
      from False Cons w have e: "split sep s = (c # w) # ws" by (subst split.simps) simp
      with 1(3) have "l = c # w \<or> l \<in> set ws" by simp
      then show ?thesis
      proof
        assume "l = c # w"
        moreover have "set w \<subseteq> set cs" using 1(2)[OF False Cons, of w] w by simp
        ultimately show ?thesis using Cons by auto
      next
        assume "l \<in> set ws"
        then have "set l \<subseteq> set cs" using 1(2)[OF False Cons, of l] w by simp
        then show ?thesis using Cons by auto
      qed
    qed
  qed
qed

lemma strip_set: "set (strip c) \<subseteq> set c"
proof -
  have "set (strip c) \<subseteq> set (rev (dropWhile is_space c))"
    unfolding strip_def using set_dropWhileD by fastforce
  also have "\<dots> \<subseteq> set c" using set_dropWhileD by fastforce
  finally show ?thesis .
qed

lemma strip_ends:
  assumes "strip c \<noteq> []"
  shows "\<not> is_space (hd (strip c))" "\<not> is_space (last (strip c))"
proof -
  let ?a = "dropWhile is_space c"
  let ?b = "dropWhile is_space (rev ?a)"
  from assms have b: "?b \<noteq> []" by (simp add: strip_def)
  then have "\<not> is_space (hd ?b)" by (rule hd_dropWhile)
  then show "\<not> is_space (last (strip c))" using b by (simp add: strip_def last_rev)
  have a: "?a \<noteq> []"
  proof
    assume e: "?a = []"
    have "dropWhile is_space (rev ([] :: string)) = []" by simp
    with b show False unfolding e by simp
  qed
  then have ha: "\<not> is_space (hd ?a)" by (rule hd_dropWhile)
  have "rev ?a = takeWhile is_space (rev ?a) @ ?b" by simp
  then have "?a = rev ?b @ rev (takeWhile is_space (rev ?a))" by (metis rev_append rev_rev_ident)
  with b have "hd ?a = hd (rev ?b)" by (metis hd_append2 rev_is_Nil_conv)
  with ha show "\<not> is_space (hd (strip c))" by (simp add: strip_def)
qed

lemma wrap_paragraph_plain:
  assumes "CHR ''<'' \<notin> set c"
  shows "wrap_paragraph c = wrap_chunk c"
proof (cases "strip c = []")
  case True
  then show ?thesis by (simp add: wrap_paragraph_def wrap_chunk_def)
next
  case False
  from assms strip_set[of c] have "CHR ''<'' \<notin> set (strip c)" by auto
  with False have "\<not> startswith ''<'' (strip c)" by (cases "strip c") auto
  with False show ?thesis by (simp add: wrap_paragraph_def wrap_chunk_def)
qed

lemma paragraph_pass_plain:
  assumes "CHR ''<'' \<notin> set s"
  shows "paragraph_pass s = join ''\<newline>\<newline>'' (map wrap_chunk (split ''\<newline>\<newline>'' s))"
proof -
  have "map wrap_paragraph (split ''\<newline>\<newline>'' s) = map wrap_chunk (split ''\<newline>\<newline>'' s)"
  proof (rule map_cong[OF refl])
    fix c assume "c \<in> set (split ''\<newline>\<newline>'' s)"
    from split_set[OF this] assms have "CHR ''<'' \<notin> set c" by auto
    then show "wrap_paragraph c = wrap_chunk c" by (rule wrap_paragraph_plain)
  qed
  then show ?thesis unfolding paragraph_pass_def by (rule arg_cong)
qed

lemma calm_cases:
  assumes "calm t"
  obtains (other) "t = [] \<or> hd t \<noteq> CHR ''<''"
  | (close) r where "t = ''</p>'' @ r"
  | (opn) x u where "t = ''<p>'' @ x # u" "\<not> is_space x" "x \<noteq> CHR ''<''"
proof (cases "startswith ''<'' t")
  case False
  then have "t = [] \<or> hd t \<noteq> CHR ''<''" by (cases t) auto
  then show ?thesis by (rule other)
next
  case True
  show ?thesis
  proof (cases "startswith ''</p>'' t")
    case c: True
    then obtain r where "t = ''</p>'' @ r" unfolding startswith_iff by blast
    then show ?thesis by (rule close)
  next
    case False
    with True assms have p: "startswith ''<p>'' t"
      and d: "(case drop 3 t of [] \<Rightarrow> False | x # u \<Rightarrow> \<not> is_space x \<and> x \<noteq> CHR ''<'')"
      by (auto simp: calm_def)
    from p obtain r where r: "t = ''<p>'' @ r" unfolding startswith_iff by blast
    with d obtain x u where "r = x # u" "\<not> is_space x" "x \<noteq> CHR ''<''"
      by (cases r) auto
    with r show ?thesis using opn by blast
  qed
qed

lemma calm_empty_p: "calm t \<Longrightarrow> rmatch empty_p_re (p, t, g) = []"
proof (erule calm_cases)
  assume "t = [] \<or> hd t \<noteq> CHR ''<''"
  then show ?thesis by (cases t) (auto simp: empty_p_re_def)
next
  fix r assume "t = ''</p>'' @ r"
  then show ?thesis by (simp add: empty_p_re_def)
next
  fix x u assume "t = ''<p>'' @ x # u" "\<not> is_space x" "x \<noteq> CHR ''<''"
  then show ?thesis by (simp add: empty_p_re_def)
qed

lemma calm_p_before: "calm t \<Longrightarrow> rmatch p_before_block_re (p, t, g) = []"
proof (erule calm_cases)
  assume "t = [] \<or> hd t \<noteq> CHR ''<''"
  then show ?thesis by (cases t) (auto simp: p_before_block_re_def)
next
  fix r assume "t = ''</p>'' @ r"
  then show ?thesis by (simp add: p_before_block_re_def)
next
  fix x u assume "t = ''<p>'' @ x # u" "\<not> is_space x" "x \<noteq> CHR ''<''"
  then show ?thesis by (simp add: p_before_block_re_def Alts_def)
qed

lemma calm_p_after: "calm t \<Longrightarrow> rmatch p_after_block_re (p, t, g) = []"
proof (erule calm_cases)
  assume "t = [] \<or> hd t \<noteq> CHR ''<''"
  then show ?thesis by (cases t) (auto simp: p_after_block_re_def Alts_def)
next
  fix r assume "t = ''</p>'' @ r"
  then show ?thesis by (simp add: p_after_block_re_def Alts_def)
next
  fix x u assume "t = ''<p>'' @ x # u" "\<not> is_space x" "x \<noteq> CHR ''<''"
  then show ?thesis by (simp add: p_after_block_re_def Alts_def)
qed

lemma good_iff:
  "good s \<longleftrightarrow> (\<forall>a t. s = a @ t \<longrightarrow> calm t) \<and> \<not> startswith ''</p>'' s"
  by (auto simp: good_def list_all_iff in_set_suffixes suffix_def)

lemma calm_Nil: "calm []"
  by (simp add: calm_def)

lemma good_Nil: "good []"
  by (simp add: good_def calm_Nil)

lemma good_suffixes: "good s \<Longrightarrow> list_all calm (suffixes s)"
  by (simp add: good_def)

lemma good_Cons:
  assumes "x \<noteq> CHR ''<''" and "good R"
  shows "good (x # R)"
proof -
  from assms(2) have r: "list_all calm (suffixes R)" and n: "\<not> startswith ''</p>'' R"
    by (simp_all add: good_def)
  from assms(1) n have "calm (x # R)" by (simp add: calm_def)
  with r assms(1) show ?thesis by (simp add: good_def)
qed

lemma good_plain_append: "CHR ''<'' \<notin> set u \<Longrightarrow> good R \<Longrightarrow> good (u @ R)"
proof (induction u)
  case Nil
  then show ?case by simp
next
  case (Cons x u)
  then have "x \<noteq> CHR ''<''" and "good (u @ R)" by auto
  then show ?case by (simp add: good_Cons)
qed

lemma calms_close:
  assumes "good R"
  shows "list_all calm (suffixes (''</p>'' @ R))"
  using good_suffixes[OF assms] by (simp add: calm_def)

lemma calms_body:
  assumes "good R"
  shows "q \<noteq> [] \<Longrightarrow> CHR ''<'' \<notin> set q \<Longrightarrow> \<not> is_space (last q) \<Longrightarrow>
         list_all calm (suffixes (q @ ''</p>'' @ R))"
proof (induction q rule: list_nonempty_induct)
  case (single x)
  then have "x \<noteq> CHR 0x0A" "x \<noteq> CHR ''<''" using nl_space by auto
  then have "calm (x # ''</p>'' @ R)" by (simp add: calm_def)
  with calms_close[OF assms] show ?case by simp
next
  case (cons x q)
  then have ih: "list_all calm (suffixes (q @ ''</p>'' @ R))" by simp
  from cons have x: "x \<noteq> CHR ''<''" and h: "hd q \<noteq> CHR ''<''" by (cases q; auto)+
  from cons(1) obtain y q' where q: "q = y # q'" by (cases q) auto
  with h have "y \<noteq> CHR ''<''" by simp
  with x q have "calm (x # q @ ''</p>'' @ R)" by (simp add: calm_def)
  with ih show ?case by simp
qed

lemma good_wrapped:
  assumes "q \<noteq> []" and "CHR ''<'' \<notin> set q" and "\<not> is_space (hd q)" and "\<not> is_space (last q)"
    and "good R"
  shows "good (''<p>'' @ q @ ''</p>'' @ R)"
proof -
  let ?T = "q @ ''</p>'' @ R"
  from calms_body[OF assms(5,1,2,4)] have t: "list_all calm (suffixes ?T)" .
  from assms(1) obtain x u where q: "q = x # u" by (cases q) auto
  with assms(2,3) have x: "\<not> is_space x" "x \<noteq> CHR ''<''" by auto
  have 1: "calm (''<p>'' @ ?T)" using q x by (simp add: calm_def)
  have 2: "calm (''p>'' @ ?T)" by (simp add: calm_def)
  have 3: "calm (''>'' @ ?T)" by (simp add: calm_def)
  from t 1 2 3 show ?thesis by (simp add: good_def)
qed

lemma good_wrap_chunk:
  assumes "CHR ''<'' \<notin> set c" and "good R"
  shows "good (wrap_chunk c @ R)"
proof (cases "strip c = []")
  case True
  with good_plain_append[OF assms] show ?thesis by (simp add: wrap_chunk_def)
next
  case False
  from assms(1) strip_set[of c] have "CHR ''<'' \<notin> set (strip c)" by auto
  from good_wrapped[OF False this strip_ends[OF False] assms(2)] False
  show ?thesis by (simp add: wrap_chunk_def)
qed

lemma good_join:
  "\<forall>c \<in> set cs. CHR ''<'' \<notin> set c \<Longrightarrow> good (join ''\<newline>\<newline>'' (map wrap_chunk cs))"
proof (induction cs rule: induct_list012)
  case 1
  then show ?case by (simp add: good_Nil)
next
  case (2 c)
  then have "CHR ''<'' \<notin> set c" by simp
  from good_wrap_chunk[OF this good_Nil] show ?case by simp
next
  case (3 c d cs)
  then have c: "CHR ''<'' \<notin> set c" and r: "good (join ''\<newline>\<newline>'' (map wrap_chunk (d # cs)))"
    by simp_all
  have "good (''\<newline>\<newline>'' @ join ''\<newline>\<newline>'' (map wrap_chunk (d # cs)))"
    by (rule good_plain_append[OF _ r]) simp
  from good_wrap_chunk[OF c this] show ?case by simp
qed

lemma good_paragraphs:
  assumes "CHR ''<'' \<notin> set s"
  shows "good (paragraph_pass s)"
proof -
  have "\<forall>c \<in> set (split ''\<newline>\<newline>'' s). CHR ''<'' \<notin> set c"
    using split_set assms by fastforce
  from good_join[OF this] show ?thesis by (simp add: paragraph_pass_plain[OF assms])
qed

lemma good_calm: "good s \<Longrightarrow> s = a @ t \<Longrightarrow> calm t"
  by (simp add: good_iff)

lemma good_no_break:
  assumes "good s"
  shows "\<not> contains ''\<newline></p>'' s"
proof
  assume "contains ''\<newline></p>'' s"
  then obtain a b where "s = a @ ''\<newline></p>'' @ b" unfolding contains_iff by blast
  from good_calm[OF assms this] show False by (simp add: calm_def)
qed

lemma good_cleanup:
  assumes "good s"
  shows "cleanup_pass s = Inr s"
proof -
  have "replace ''\<newline></p>'' ''</p>'' s = s"
    using good_no_break[OF assms] by (intro replace_none) simp_all
  moreover have "re_sub empty_p_re (expand []) s = Inr s"
    by (rule re_sub_no_match) (rule calm_empty_p, rule good_calm[OF assms])
  moreover have "re_sub p_before_block_re (expand [G 1]) s = Inr s"
    by (rule re_sub_no_match) (rule calm_p_before, rule good_calm[OF assms])
  moreover have "re_sub p_after_block_re (expand [G 1]) s = Inr s"
    by (rule re_sub_no_match) (rule calm_p_after, rule good_calm[OF assms])
  ultimately show ?thesis by (simp add: cleanup_pass_def)
qed

lemma good_occurs:
  assumes "good s" and "\<And>p t g. calm t \<Longrightarrow> rmatch r (p, t, g) = []"
  shows "\<not> occurs r s"
proof -
  have "rmatch r (lastp None (take i s), drop i s, []) = []" for i
    by (rule assms(2)) (rule good_calm[OF assms(1), of "take i s"], simp)
  then show ?thesis by (simp add: occurs_def list_ex_iff)
qed

lemma plain_no_angle: "plain s \<Longrightarrow> CHR ''<'' \<notin> set s"
  by (simp add: plain_def contains_char)

lemma plain_md_to_html:
  assumes "plain s"
  shows "md_to_html s = Inr (paragraph_pass s)"
  using plain_before_paragraph[OF assms] good_cleanup[OF good_paragraphs[OF plain_no_angle[OF assms]]]
  by (simp add: md_to_html_def passes_def)

section \<open>The claims\<close>

text \<open>
  C1 (as stated, it fails). For the input \<^verbatim>\<open>**bold *and italic* text**\<close> the claim expects a
  strong element with an emphasis element around "and italic" nested in it. The output
  has no strong element and no emphasis element around "and italic".
\<close>

theorem nested_emphasis_counterexample:
  "\<not> output_contains ''<strong>'' (md_to_html ''**bold *and italic* text**'')
   \<and> \<not> output_contains ''<em>and italic</em>'' (md_to_html ''**bold *and italic* text**'')"
  by code_simp

text \<open>
  C1 (amended). The bold pass runs before the italic pass: the italic pass works on the
  text that the bold pass returns. The bold pass scans the text from left to right; where
  two asterisks, a non-empty run of characters other than asterisks and two more asterisks
  start, it replaces them by a strong element around the run and goes on after them, and it
  keeps every other character. The italic pass does the same with one asterisk on each side
  and an emphasis element. So the markers of a span that the bold pass finds never reach
  the italic pass, and the bold pass keeps a doubled marker outside such a span. The run of a
  bold span cannot contain an asterisk: in \<^verbatim>\<open>**bold *and italic* text**\<close> the bold pass finds
  no span, the italic pass then finds the spans \<^verbatim>\<open>*bold *\<close> and \<^verbatim>\<open>* text*\<close>, and the emphasis
  elements are around "bold " and " text".
\<close>

theorem bold_before_italic:
  "md_to_html s
     = foldl and_then
         (and_then (and_then (foldl and_then (Inr s)
              [title_pass, meta_pass, h2_pass, h3_pass, hr_pass, code_block_pass, inline_code_pass])
            bold_pass) italic_pass)
         [image_pass, table_pass, list_pass, ol_pass, \<lambda>text. Inr (paragraph_pass text), cleanup_pass]
   \<and> concat (map (span_text ''**'') (span_segments ''**'' CHR ''*'' s)) = s
   \<and> bold_pass s = Inr (concat (map (span_html ''strong'') (span_segments ''**'' CHR ''*'' s)))
   \<and> concat (map (span_text ''*'') (span_segments ''*'' CHR ''*'' s)) = s
   \<and> italic_pass s = Inr (concat (map (span_html ''em'') (span_segments ''*'' CHR ''*'' s)))
   \<and> span_segments ''**'' CHR ''*'' ''x **a**b** **c d** y''
       = [Lit CHR ''x'', Lit CHR '' '', Span ''a'', Lit CHR ''b'', Span '' '', Lit CHR ''c'',
          Lit CHR '' '', Lit CHR ''d'', Lit CHR ''*'', Lit CHR ''*'', Lit CHR '' '', Lit CHR ''y'']
   \<and> md_to_html ''a **b c** d'' = Inr ''<p>a <strong>b c</strong> d</p>''
   \<and> md_to_html ''x **a**b** y'' = Inr ''<p>x <strong>a</strong>b** y</p>''
   \<and> bold_pass ''**bold *and italic* text**'' = Inr ''**bold *and italic* text**''
   \<and> span_segments ''*'' CHR ''*'' ''**bold *and italic* text**''
       = [Lit CHR ''*'', Span ''bold '', Lit CHR ''a'', Lit CHR ''n'', Lit CHR ''d'', Lit CHR '' '',
          Lit CHR ''i'', Lit CHR ''t'', Lit CHR ''a'', Lit CHR ''l'', Lit CHR ''i'', Lit CHR ''c'',
          Span '' text'', Lit CHR ''*'']
   \<and> md_to_html ''**bold *and italic* text**''
       = Inr ''<p>*<em>bold </em>and italic<em> text</em>*</p>''"
proof -
  have order: "md_to_html s
     = foldl and_then
         (and_then (and_then (foldl and_then (Inr s)
              [title_pass, meta_pass, h2_pass, h3_pass, hr_pass, code_block_pass, inline_code_pass])
            bold_pass) italic_pass)
         [image_pass, table_pass, list_pass, ol_pass, \<lambda>text. Inr (paragraph_pass text), cleanup_pass]"
    by (rule bold_then_italic)
  have b1: "concat (map (span_text ''**'') (span_segments ''**'' CHR ''*'' s)) = s"
    by (rule span_segments_text)
  have b2: "bold_pass s = Inr (concat (map (span_html ''strong'') (span_segments ''**'' CHR ''*'' s)))"
    by (rule bold_pass_spans)
  have i1: "concat (map (span_text ''*'') (span_segments ''*'' CHR ''*'' s)) = s"
    by (rule span_segments_text)
  have i2: "italic_pass s = Inr (concat (map (span_html ''em'') (span_segments ''*'' CHR ''*'' s)))"
    by (rule italic_pass_spans)
  have e1: "span_segments ''**'' CHR ''*'' ''x **a**b** **c d** y''
       = [Lit CHR ''x'', Lit CHR '' '', Span ''a'', Lit CHR ''b'', Span '' '', Lit CHR ''c'',
          Lit CHR '' '', Lit CHR ''d'', Lit CHR ''*'', Lit CHR ''*'', Lit CHR '' '', Lit CHR ''y'']"
    by code_simp
  have e2: "md_to_html ''a **b c** d'' = Inr ''<p>a <strong>b c</strong> d</p>''"
    by code_simp
  have e3: "md_to_html ''x **a**b** y'' = Inr ''<p>x <strong>a</strong>b** y</p>''"
    by code_simp
  have e4: "bold_pass ''**bold *and italic* text**'' = Inr ''**bold *and italic* text**''"
    by code_simp
  have e5: "span_segments ''*'' CHR ''*'' ''**bold *and italic* text**''
       = [Lit CHR ''*'', Span ''bold '', Lit CHR ''a'', Lit CHR ''n'', Lit CHR ''d'', Lit CHR '' '',
          Lit CHR ''i'', Lit CHR ''t'', Lit CHR ''a'', Lit CHR ''l'', Lit CHR ''i'', Lit CHR ''c'',
          Span '' text'', Lit CHR ''*'']"
    by code_simp
  have e6: "md_to_html ''**bold *and italic* text**''
       = Inr ''<p>*<em>bold </em>and italic<em> text</em>*</p>''"
    by code_simp
  from order b1 b2 i1 i2 e1 e2 e3 e4 e5 e6 show ?thesis by (intro conjI)
qed

text \<open>
  C5 (as stated, it fails). The rendering step raises \<^verbatim>\<open>KeyboardInterrupt\<close>, which is not
  an instance of \<^verbatim>\<open>Exception\<close>: the handler does not catch it, no diagnostic is printed,
  and the script ends with the exception, not with exit code 0.
\<close>

theorem keyboard_interrupt_counterexample:
  "main ''text'' (Some (Other_BaseException ''KeyboardInterrupt'')) (Inr 0)
   = ([Write_file ''academic-output.html'' (html_doc ''<p>text</p>''),
       Print ''HTML generated: academic-output.html''],
      Uncaught (Other_BaseException ''KeyboardInterrupt''))"
  by code_simp

text \<open>
  C5 (amended). If the rendering step raises an instance of \<^verbatim>\<open>Exception\<close>, the HTML file
  has been written before, the diagnostic with the exception's text is printed, nothing
  propagates, and the script ends with exit code 0.
\<close>

theorem render_exception_reported:
  "\<exists>html. main md_file (Some (Exception_instance msg)) getsize
     = ([Write_file ''academic-output.html'' html,
         Print ''HTML generated: academic-output.html'',
         Print (''PDF generation error: '' @ msg)],
        Exit_code 0)"
proof -
  obtain md_content diagram_count where
    m: "replace_mermaid_blocks 0 md_file = (md_content, diagram_count)"
    by (cases "replace_mermaid_blocks 0 md_file") auto
  obtain out where "md_to_html md_content = Inr out"
    using md_to_html_returns by blast
  with m show ?thesis
    by (simp add: main_def handler_def)
qed

text \<open>
  C7. The conversion returns a text for every input text. In the model a replacement
  raises when it refers to a group that its match has not set, and nothing else in
  \<^verbatim>\<open>md_to_html\<close> can raise; every function of the model is total, the matcher and the
  scans by their termination proofs.
\<close>

theorem md_to_html_total:
  "\<exists>out. md_to_html text = Inr out"
  by (rule md_to_html_returns)

text \<open>
  C3 (as stated, it fails). In \<^verbatim>\<open># A\<close>, \<^verbatim>\<open># B\<close>, blank line, \<^verbatim>\<open>x\<close> both level-1 headings
  become heading elements, and the metadata and the abstract follow the second one, the
  one that a blank line follows: not only the first heading is converted, and the block is not
  tied to the first heading.
\<close>

theorem second_heading_counterexample:
  "md_to_html ''# A\<newline># B\<newline>\<newline>x''
   = Inr (''<h1>A</h1>\<newline><h1>B'' @ meta_block @ ''x'')"
proof (rule md_to_html_inert)
  show "and_then (title_pass ''# A\<newline># B\<newline>\<newline>x'') meta_pass
        = Inr (''<h1>A</h1>\<newline><h1>B'' @ meta_block @ ''x'')"
    by code_simp
  show "inert (''<h1>A</h1>\<newline><h1>B'' @ meta_block @ ''x'')"
    by code_simp
qed

text \<open>
  C3 (amended). Every line that starts with \<^verbatim>\<open># \<close> and has more text becomes a heading
  element, not only the first one (the title pass is \<open>h1_lines\<close>, line by line). The
  injection then works on the lines that the title pass returns: after every line that ends
  with the closing tag of a level-1 heading and is followed by an empty line that is not the
  last line, the fixed metadata line and abstract block are put right after the closing tag,
  in place of the empty line, and every other line is kept (\<open>inject_meta\<close>). So a level-1
  heading anywhere in the document (at its start or after a newline) that a blank line
  follows gets the block right after its closing tag, and what is before and after it is
  converted as it is alone. For \<^verbatim>\<open># Title\<close>, blank line, \<^verbatim>\<open>text\<close> the output is one heading
  element, the injected block right after it and then \<^verbatim>\<open>text\<close>, with no paragraph element
  anywhere.
\<close>

theorem every_h1_converted:
  assumes "t \<noteq> []" and "CHR 0x0A \<notin> set t" and "x = [] \<or> last x = CHR 0x0A"
  shows "title_pass doc = Inr (h1_lines doc)
     \<and> and_then (title_pass doc) meta_pass
         = Inr (inject_meta (map (h_line ''# '' ''<h1>'' ''</h1>'') (split ''\<newline>'' doc)))
     \<and> (\<exists>X Y. and_then (title_pass x) meta_pass = Inr X
           \<and> and_then (title_pass y) meta_pass = Inr Y
           \<and> and_then (title_pass (x @ ''# '' @ t @ ''\<newline>\<newline>'' @ y)) meta_pass
             = Inr (X @ ''<h1>'' @ t @ meta_block @ Y))
     \<and> md_to_html ''# Title\<newline>\<newline>text'' = Inr (''<h1>Title'' @ meta_block @ ''text'')"
  using title_pass_lines[of doc] title_meta_lines[of doc] title_meta_blank_line_at[OF assms, of y]
    title_example
  by (simp add: h1_lines_def)

theorem every_h1_converted_witness:
  "''T'' \<noteq> [] \<and> CHR 0x0A \<notin> set ''T'' \<and> (''intro\<newline>'' = [] \<or> last ''intro\<newline>'' = CHR 0x0A)
   \<and> title_pass ''# A\<newline>text\<newline># B'' = Inr ''<h1>A</h1>\<newline>text\<newline><h1>B</h1>''
   \<and> and_then (title_pass ''intro\<newline># T\<newline>\<newline>body'') meta_pass
       = Inr (''intro\<newline><h1>T'' @ meta_block @ ''body'')
   \<and> md_to_html ''# Title\<newline>\<newline>text'' = Inr (''<h1>Title'' @ meta_block @ ''text'')"
proof -
  have h: "''T'' \<noteq> []" "CHR 0x0A \<notin> set ''T''" "''intro\<newline>'' = [] \<or> last ''intro\<newline>'' = CHR 0x0A"
    by simp_all
  have e: "h1_lines ''# A\<newline>text\<newline># B'' = ''<h1>A</h1>\<newline>text\<newline><h1>B</h1>''"
    by code_simp
  have x: "and_then (title_pass ''intro\<newline>'') meta_pass = Inr ''intro\<newline>''"
    by code_simp
  have y: "and_then (title_pass ''body'') meta_pass = Inr ''body''"
    by code_simp
  from every_h1_converted[OF h, of "''# A\<newline>text\<newline># B''" "''body''"] h e x y
  show ?thesis by simp
qed

text \<open>
  C10. The metadata and the abstract are injected only where \<^verbatim>\<open></h1>\<close> is followed by a
  blank line. For every text the injection is \<open>inject_meta\<close> on its lines: the block is put
  after a line that ends with \<^verbatim>\<open></h1>\<close> and is followed by an empty line that is not the
  last line, and every other line is kept; a text without \<^verbatim>\<open></h1>\<close> followed by two newlines
  passes unchanged. A level-1 heading anywhere in the document (at its start or after a
  newline) that is at the end of the input, or that a line of text follows, becomes a heading
  element with nothing injected after it; one that a blank line follows gets the block.
\<close>

theorem meta_only_after_blank_line:
  assumes "t \<noteq> []" and "CHR 0x0A \<notin> set t" and "x = [] \<or> last x = CHR 0x0A"
    and "\<not> startswith ''\<newline>'' z" and "\<not> contains ''</h1>\<newline>\<newline>'' u"
  shows "meta_pass s = Inr (inject_meta (split ''\<newline>'' s))
     \<and> meta_pass u = Inr u
     \<and> (\<exists>X. and_then (title_pass x) meta_pass = Inr X
           \<and> and_then (title_pass (x @ ''# '' @ t)) meta_pass = Inr (X @ ''<h1>'' @ t @ ''</h1>''))
     \<and> (\<exists>X Z. and_then (title_pass x) meta_pass = Inr X
           \<and> and_then (title_pass z) meta_pass = Inr Z
           \<and> and_then (title_pass (x @ ''# '' @ t @ ''\<newline>'' @ z)) meta_pass
             = Inr (X @ ''<h1>'' @ t @ ''</h1>\<newline>'' @ Z))
     \<and> (\<exists>X Y. and_then (title_pass x) meta_pass = Inr X
           \<and> and_then (title_pass y) meta_pass = Inr Y
           \<and> and_then (title_pass (x @ ''# '' @ t @ ''\<newline>\<newline>'' @ y)) meta_pass
             = Inr (X @ ''<h1>'' @ t @ meta_block @ Y))"
  using meta_pass_lines[of s] meta_pass_id[OF assms(5)] title_meta_end_at[OF assms(1,2,3)]
    title_meta_text_line_at[OF assms(1,2,3,4)] title_meta_blank_line_at[OF assms(1,2,3), of y]
  by blast

theorem meta_only_after_blank_line_witness:
  "''A'' \<noteq> [] \<and> CHR 0x0A \<notin> set ''A'' \<and> (''intro\<newline>'' = [] \<or> last ''intro\<newline>'' = CHR 0x0A)
   \<and> \<not> startswith ''\<newline>'' ''text\<newline># B\<newline>\<newline>body''
   \<and> \<not> contains ''</h1>\<newline>\<newline>'' ''<h1>a</h1>\<newline>b''
   \<and> meta_pass ''x</h1>\<newline>\<newline>y'' = Inr (inject_meta [''x</h1>'', '''', ''y''])
   \<and> meta_pass ''<h1>a</h1>\<newline>b'' = Inr ''<h1>a</h1>\<newline>b''
   \<and> and_then (title_pass ''intro\<newline># A'') meta_pass = Inr ''intro\<newline><h1>A</h1>''
   \<and> and_then (title_pass ''intro\<newline># A\<newline>text\<newline># B\<newline>\<newline>body'') meta_pass
       = Inr (''intro\<newline><h1>A</h1>\<newline>text\<newline><h1>B'' @ meta_block @ ''body'')
   \<and> and_then (title_pass ''intro\<newline># A\<newline>\<newline>more'') meta_pass
       = Inr (''intro\<newline><h1>A'' @ meta_block @ ''more'')"
proof -
  have h: "''A'' \<noteq> []" "CHR 0x0A \<notin> set ''A''" "''intro\<newline>'' = [] \<or> last ''intro\<newline>'' = CHR 0x0A"
    "\<not> startswith ''\<newline>'' ''text\<newline># B\<newline>\<newline>body''"
    "\<not> contains ''</h1>\<newline>\<newline>'' ''<h1>a</h1>\<newline>b''"
    by simp_all
  have l: "split ''\<newline>'' ''x</h1>\<newline>\<newline>y'' = [''x</h1>'', '''', ''y'']"
    by code_simp
  have x: "and_then (title_pass ''intro\<newline>'') meta_pass = Inr ''intro\<newline>''"
    by code_simp
  have z: "and_then (title_pass ''text\<newline># B\<newline>\<newline>body'') meta_pass
           = Inr (''text\<newline><h1>B'' @ meta_block @ ''body'')"
    by code_simp
  have y: "and_then (title_pass ''more'') meta_pass = Inr ''more''"
    by code_simp
  from meta_only_after_blank_line[OF h, of "''x</h1>\<newline>\<newline>y''" "''more''"] h l x y z
  show ?thesis by simp
qed



text \<open>
  C2. The text splits, from left to right, into diagram blocks (the opening fence tagged
  \<^verbatim>\<open>mermaid\<close> and ended by a newline, the body up to the next fence, that fence) and single
  characters outside them. With the counter at \<open>n\<close> before the substitution, every
  character outside a block is kept, the block that is the k-th in the order of the text is
  replaced by the figure numbered \<open>n + k\<close>, whose image path and caption carry that
  number, and the counter comes out as \<open>n\<close> plus the number of blocks: it goes up by one
  for every block and is never reset by the substitution. The script starts the counter at
  0, once, so the first block of a run is Figure 1.
\<close>

theorem mermaid_blocks_numbered:
  \<open>concat (map seg_text (mermaid_segments s)) = s
   \<and> replace_mermaid_blocks n s
       = (render n (mermaid_segments s), n + count_blocks (mermaid_segments s))
   \<and> figure k = ''<figure>\<newline><img src="diagrams/diagram'' @ str_nat k @ ''.png" alt="Diagram '' @ str_nat k
                 @ ''">\<newline><figcaption>Figure '' @ str_nat k @ ''</figcaption>\<newline></figure>''
   \<and> (\<exists>html. md_to_html (render 0 (mermaid_segments s)) = Inr html
         \<and> main s None (Inr nbytes)
           = ([Write_file ''academic-output.html'' (html_doc html),
               Print ''HTML generated: academic-output.html'',
               Write_pdf ''Psych_Intake_Brief_Technical_Documentation.pdf'',
               Print ''PDF generated: Psych_Intake_Brief_Technical_Documentation.pdf'',
               Print (''Size: '' @ fmt_kb nbytes @ '' KB'')],
              Exit_code 0))
   \<and> replace_mermaid_blocks 0 ''a```mermaid\<newline>graph```b```mermaid\<newline>x\<newline>```c''
       = (''a'' @ figure 1 @ ''b'' @ figure 2 @ ''c'', 2)
   \<and> figure 2 = ''<figure>\<newline><img src="diagrams/diagram2.png" alt="Diagram 2">\<newline><figcaption>Figure 2</figcaption>\<newline></figure>''\<close>
proof -
  have parts: "concat (map seg_text (mermaid_segments s)) = s"
    by (rule mermaid_segments_text)
  have blocks: "replace_mermaid_blocks n s
                  = (render n (mermaid_segments s), n + count_blocks (mermaid_segments s))"
    by (rule mermaid_blocks)
  have fig: \<open>figure k = ''<figure>\<newline><img src="diagrams/diagram'' @ str_nat k @ ''.png" alt="Diagram '' @ str_nat k
                 @ ''">\<newline><figcaption>Figure '' @ str_nat k @ ''</figcaption>\<newline></figure>''\<close>
    by (simp add: figure_def)
  obtain html where html: "md_to_html (render 0 (mermaid_segments s)) = Inr html"
    using md_to_html_returns by blast
  have script: "\<exists>html. md_to_html (render 0 (mermaid_segments s)) = Inr html
         \<and> main s None (Inr nbytes)
           = ([Write_file ''academic-output.html'' (html_doc html),
               Print ''HTML generated: academic-output.html'',
               Write_pdf ''Psych_Intake_Brief_Technical_Documentation.pdf'',
               Print ''PDF generated: Psych_Intake_Brief_Technical_Documentation.pdf'',
               Print (''Size: '' @ fmt_kb nbytes @ '' KB'')],
              Exit_code 0)"
    using html by (simp add: main_def mermaid_blocks)
  have run: "replace_mermaid_blocks 0 ''a```mermaid\<newline>graph```b```mermaid\<newline>x\<newline>```c''
               = (''a'' @ figure 1 @ ''b'' @ figure 2 @ ''c'', 2)"
    by code_simp
  have fig2: \<open>figure 2 = ''<figure>\<newline><img src="diagrams/diagram2.png" alt="Diagram 2">\<newline><figcaption>Figure 2</figcaption>\<newline></figure>''\<close>
    by code_simp
  from parts blocks fig script run fig2 show ?thesis by (intro conjI)
qed

text \<open>
  C8 (as stated, it fails). In the output of the converter the content of the element is
  not the content of the block with its angle brackets escaped. A line of the block that
  starts with \<^verbatim>\<open># \<close> has been made a heading element before the pass, and the pass escapes
  the tags of that element with the rest; emphasis markers in the block are replaced after
  the pass; and a blank line in the block makes the paragraph pass put a paragraph open tag
  into the element. Three backticks with text right after them on the line start no block:
  the inline code pass takes what is between them.
\<close>

theorem code_block_content_counterexample:
  "md_to_html ''```\<newline># a\<newline>```'' = Inr ''<pre><code>&lt;h1&gt;a&lt;/h1&gt;\<newline></code></pre>''
   \<and> md_to_html ''```py\<newline>a*b*c\<newline>```'' = Inr ''<pre><code>a<em>b</em>c\<newline></code></pre>''
   \<and> md_to_html ''```\<newline>x\<newline>\<newline>y\<newline>```'' = Inr ''<pre><code>x\<newline>\<newline><p>y\<newline></code></pre>''
   \<and> code_block_pass ''```x```'' = Inr ''```x```''
   \<and> md_to_html ''```x```'' = Inr ''<p>``<code>x</code>``</p>''"
  by code_simp

text \<open>
  C8 (amended). The fenced code block pass works on the text as the passes before it have
  left it. That text splits, from left to right, into fenced blocks (three backticks, a
  possibly empty run of word characters, a newline, the body up to the next three backticks,
  those backticks) and single characters outside them. The pass keeps every character
  outside a block and replaces each block by a preformatted code element whose content is
  the body of the block with every \<^verbatim>\<open><\<close> and every \<^verbatim>\<open>>\<close> replaced by its character entity
  and every other character kept. For example the block of the lines \<^verbatim>\<open>```py\<close>, \<^verbatim>\<open>x < y\<close>
  and \<^verbatim>\<open>```\<close> comes out of the converter as this element.
\<close>

theorem fenced_blocks_escaped:
  "concat (map code_text (code_segments s)) = s
   \<and> code_block_pass s = Inr (concat (map code_html (code_segments s)))
   \<and> code_segments ''a```py\<newline>x<y>```b```\<newline>```''
       = [Text CHR ''a'', Code ''py'' ''x<y>'', Text CHR ''b'', Code [] []]
   \<and> code_block_pass ''a```py\<newline>x<y>```b```\<newline>```''
       = Inr ''a<pre><code>x&lt;y&gt;</code></pre>b<pre><code></code></pre>''
   \<and> md_to_html ''```py\<newline>x < y\<newline>```'' = Inr ''<pre><code>x &lt; y\<newline></code></pre>''"
proof -
  have parts: "concat (map code_text (code_segments s)) = s"
    by (rule code_segments_text)
  have pass: "code_block_pass s = Inr (concat (map code_html (code_segments s)))"
    by (rule code_block_pass_segments)
  have segs: "code_segments ''a```py\<newline>x<y>```b```\<newline>```''
                = [Text CHR ''a'', Code ''py'' ''x<y>'', Text CHR ''b'', Code [] []]"
    by code_simp
  have run: "code_block_pass ''a```py\<newline>x<y>```b```\<newline>```''
               = Inr ''a<pre><code>x&lt;y&gt;</code></pre>b<pre><code></code></pre>''"
    by code_simp
  have whole: "md_to_html ''```py\<newline>x < y\<newline>```'' = Inr ''<pre><code>x &lt; y\<newline></code></pre>''"
    by code_simp
  from parts pass segs run whole show ?thesis by (intro conjI)
qed

text \<open>
  C6 (as stated, it fails). A chunk that starts with \<^verbatim>\<open><\<close> is not wrapped, also when it is
  plain text without any markdown syntax, as in \<^verbatim>\<open><3 you\<close>; and in a text without markdown
  syntax that holds paragraph tags the cleanup pass, not the paragraph pass, removes the
  empty paragraph element.
\<close>

theorem angle_chunk_counterexample:
  "md_to_html ''<3 you'' = Inr ''<3 you''
   \<and> md_to_html ''I\<newline>\<newline><3 you'' = Inr ''<p>I</p>\<newline>\<newline><3 you''
   \<and> paragraph_pass ''x <p> </p> y'' = ''<p>x <p> </p> y</p>''
   \<and> md_to_html ''x <p> </p> y'' = Inr ''<p>x  y</p>''"
  by code_simp

text \<open>
  C6 (amended). Let the input be plain: it has no \<^verbatim>\<open><\<close>, no backtick, no asterisk, no pipe,
  no \<^verbatim>\<open>![\<close>, no two hyphens in a row, no \<^verbatim>\<open>#\<close> followed by a space, and no line whose first
  character that is not white space is a hyphen or a digit of a number that a period
  follows. Then no pass before the paragraph pass changes the text; the paragraph pass
  splits it at every pair of newlines and puts every chunk that is not only white space,
  stripped of the white space around it, into one paragraph element, leaving the other
  chunks as they are; the cleanup pass changes nothing; and this is the output.
\<close>

theorem plain_text_paragraphs:
  assumes "plain s"
  shows "title_pass s = Inr s \<and> meta_pass s = Inr s \<and> h2_pass s = Inr s \<and> h3_pass s = Inr s
     \<and> hr_pass s = Inr s \<and> code_block_pass s = Inr s \<and> inline_code_pass s = Inr s
     \<and> bold_pass s = Inr s \<and> italic_pass s = Inr s \<and> image_pass s = Inr s
     \<and> table_pass s = Inr s \<and> list_pass s = Inr s \<and> ol_pass s = Inr s
     \<and> paragraph_pass s = join ''\<newline>\<newline>'' (map wrap_chunk (split ''\<newline>\<newline>'' s))
     \<and> cleanup_pass (paragraph_pass s) = Inr (paragraph_pass s)
     \<and> md_to_html s = Inr (join ''\<newline>\<newline>'' (map wrap_chunk (split ''\<newline>\<newline>'' s)))"
proof -
  note n = plain_no_angle[OF assms]
  have p: "paragraph_pass s = join ''\<newline>\<newline>'' (map wrap_chunk (split ''\<newline>\<newline>'' s))"
    by (rule paragraph_pass_plain[OF n])
  have c: "cleanup_pass (paragraph_pass s) = Inr (paragraph_pass s)"
    by (rule good_cleanup[OF good_paragraphs[OF n]])
  have m: "md_to_html s = Inr (join ''\<newline>\<newline>'' (map wrap_chunk (split ''\<newline>\<newline>'' s)))"
    using plain_md_to_html[OF assms] p by simp
  from plain_before_paragraph[OF assms] p c m show ?thesis by (intro conjI)
qed

theorem plain_text_paragraphs_witness:
  "plain ''one\<newline>two\<newline>\<newline> \<newline>\<newline>three ''
   \<and> paragraph_pass ''one\<newline>two\<newline>\<newline> \<newline>\<newline>three ''
       = ''<p>one\<newline>two</p>\<newline>\<newline> \<newline>\<newline><p>three</p>''
   \<and> md_to_html ''one\<newline>two\<newline>\<newline> \<newline>\<newline>three ''
       = Inr ''<p>one\<newline>two</p>\<newline>\<newline> \<newline>\<newline><p>three</p>''"
proof -
  have h: "plain ''one\<newline>two\<newline>\<newline> \<newline>\<newline>three ''"
    by code_simp
  have e: "join ''\<newline>\<newline>'' (map wrap_chunk (split ''\<newline>\<newline>'' ''one\<newline>two\<newline>\<newline> \<newline>\<newline>three ''))
           = ''<p>one\<newline>two</p>\<newline>\<newline> \<newline>\<newline><p>three</p>''"
    by code_simp
  from plain_text_paragraphs[OF h] h show ?thesis unfolding e by blast
qed




end
